theory Spec2Isabelle
  imports Main
begin

section \<open>Strings\<close>

text \<open>
  Python's \<^verbatim>\<open>sub in s\<close> on strings: \<open>sub\<close> occurs in \<open>s\<close> as a contiguous run.
  The marker phrases of the source are ASCII, so searching the bytes of the body finds
  what searching its code points finds.
\<close>

fun startswith :: "string \<Rightarrow> string \<Rightarrow> bool" where
  "startswith s [] = True"
| "startswith [] (p # ps) = False"
| "startswith (c # cs) (p # ps) = (c = p \<and> startswith cs ps)"

fun str_in :: "string \<Rightarrow> string \<Rightarrow> bool" where
  "str_in sub [] = (sub = [])"
| "str_in sub (c # cs) = (startswith (c # cs) sub \<or> str_in sub cs)"

section \<open>HTTP outcomes\<close>

text \<open>
  What \<^verbatim>\<open>session.get\<close> and \<^verbatim>\<open>session.post\<close> of the requests library give back to
  the caller: a response with a status code and a body, or one of the exceptions the
  source names in its handlers. \<open>Timeout\<close>, \<open>ProxyError\<close> and \<open>SSLError\<close> are
  subclasses of \<open>RequestException\<close>; \<open>OtherException\<close> is any other \<open>Exception\<close>.
\<close>

record response =
  status_code :: int
  body :: string

datatype request_error = Timeout | ProxyError | SSLError | RequestException | OtherException

datatype http_outcome = Response response | Raised request_error

section \<open>core/email\_checker.py\<close>

text \<open>
  \<^verbatim>\<open>check_email(email, session, token, proxies, headers, timeout)\<close>. The session, token,
  proxies, headers and timeout only shape the request; the model takes the outcome of the
  POST as its second argument. The result is Python's \<^verbatim>\<open>(email, status)\<close> pair, or
  \<open>None\<close>.
\<close>

definition check_email :: "string \<Rightarrow> http_outcome \<Rightarrow> (string \<times> string) option" where
  "check_email email outcome =
     (case outcome of
        Raised e \<Rightarrow> None
      | Response r \<Rightarrow>
          if status_code r = 429 then None
          else if status_code r = 403 then None
          else if status_code r = 401 then None
          else if status_code r \<in> {301, 302} then None
          else
            if str_in ''already associated with an account'' (body r) then
              Some (email, ''Registered'')
            else if str_in ''is available'' (body r) \<or> str_in ''looks good'' (body r) then
              Some (email, ''Not registered'')
            else
              Some (email, ''Unclear''))"

section \<open>Parsed pages\<close>

text \<open>
  The part of BeautifulSoup the source uses. A parsed page is a forest of tags, each with
  a name, its attributes and its children. \<^verbatim>\<open>find(name, attrs)\<close> returns the first
  tag in document order, at any depth, whose name is \<open>name\<close> and which carries every
  attribute of \<open>attrs\<close> with the given value, or \<open>None\<close>.
\<close>

datatype tag = Tag (tag_name: string) (attrs: "(string \<times> string) list") (children: "tag list")

definition tag_matches :: "string \<Rightarrow> (string \<times> string) list \<Rightarrow> tag \<Rightarrow> bool" where
  "tag_matches nm want t =
     (tag_name t = nm \<and> list_all (\<lambda>(k, v). map_of (attrs t) k = Some v) want)"

fun find_tag :: "string \<Rightarrow> (string \<times> string) list \<Rightarrow> tag list \<Rightarrow> tag option" where
  "find_tag nm want [] = None"
| "find_tag nm want (Tag n a cs # ts) =
     (if tag_matches nm want (Tag n a cs) then Some (Tag n a cs)
      else case find_tag nm want cs of
             Some t \<Rightarrow> Some t
           | None \<Rightarrow> find_tag nm want ts)"

section \<open>core/get\_csrf.py\<close>

datatype py_exception = RuntimeError string | ValueError string

text \<open>
  \<^verbatim>\<open>response.raise_for_status()\<close> raises \<open>HTTPError\<close>, a \<open>RequestException\<close>, for
  the 4xx and 5xx status codes.
\<close>

definition raises_for_status :: "response \<Rightarrow> bool" where
  "raises_for_status r = (400 \<le> status_code r \<and> status_code r < 600)"

text \<open>
  Lines 123 and 124 of the source: the \<open>auto-check\<close> element of the e-mail check,
  and inside it the hidden input that carries the token; \<open>None\<close> when either is
  missing.
\<close>

definition csrf_input :: "tag list \<Rightarrow> tag option" where
  "csrf_input soup =
     (case find_tag ''auto-check'' [(''src'', ''/email_validity_checks'')] soup of
        Some auto_check \<Rightarrow>
          find_tag ''input'' [(''type'', ''hidden''), (''data-csrf'', ''true'')]
            (children auto_check)
      | None \<Rightarrow> None)"

text \<open>
  \<^verbatim>\<open>get_csrf_token(session, proxies, headers)\<close>, on the outcome of its GET. The parser
  \<open>html_parser\<close> stands for \<^verbatim>\<open>BeautifulSoup(response.text, 'html.parser')\<close>. The
  result is \<open>Inr (Some token)\<close>, \<open>Inr None\<close> for the returns of \<open>None\<close>, or
  \<open>Inl\<close> of the \<open>RuntimeError\<close> of the second try block: a missing tag, a missing
  \<open>value\<close> attribute (a \<open>KeyError\<close>) and an empty value are all re-raised there under
  one message.
\<close>

definition get_csrf_token ::
    "(string \<Rightarrow> tag list) \<Rightarrow> http_outcome \<Rightarrow> py_exception + string option" where
  "get_csrf_token html_parser outcome =
     (case outcome of
        Raised e \<Rightarrow> Inr None
      | Response r \<Rightarrow>
          if status_code r = 429 then Inr None
          else if status_code r = 403 then Inr None
          else if status_code r = 401 then Inr None
          else if status_code r \<in> {301, 302} then Inr None
          else if raises_for_status r then Inr None
          else
            (case csrf_input (html_parser (body r)) of
               None \<Rightarrow> Inl (RuntimeError ''Failed to parse CSRF token.'')
             | Some inp \<Rightarrow>
                 (case map_of (attrs inp) ''value'' of
                    None \<Rightarrow> Inl (RuntimeError ''Failed to parse CSRF token.'')
                  | Some v \<Rightarrow>
                      if v = [] then Inl (RuntimeError ''Failed to parse CSRF token.'')
                      else Inr (Some v))))"

section \<open>The retry policies\<close>

text \<open>
  \<open>urllib3.util.retry.Retry\<close> and the part of \<open>urlopen\<close> that consults it, as
  release 1.26.18 of the library has them. A policy holds the arguments the source
  passes (\<open>total\<close>, \<open>backoff_factor\<close> in seconds, \<open>status_forcelist\<close>,
  \<open>raise_on_status\<close>, \<open>raise_on_redirect\<close>), the arguments it leaves at their
  defaults (\<open>allowed_methods\<close>, \<open>respect_retry_after_header\<close>), and the number of
  failed tries in a row so far (the length of the library's \<open>history\<close>).
\<close>

datatype http_method = HEAD | GET | PUT | DELETE | OPTIONS | TRACE | POST | PATCH

record retry =
  total :: nat
  backoff_factor :: nat
  status_forcelist :: "int list"
  raise_on_status :: bool
  raise_on_redirect :: bool
  allowed_methods :: "http_method list"
  respect_retry_after_header :: bool
  consecutive_errors :: nat

definition DEFAULT_ALLOWED_METHODS :: "http_method list" where
  "DEFAULT_ALLOWED_METHODS = [HEAD, GET, PUT, DELETE, OPTIONS, TRACE]"

definition RETRY_AFTER_STATUS_CODES :: "int list" where
  "RETRY_AFTER_STATUS_CODES = [413, 429, 503]"

definition DEFAULT_BACKOFF_MAX :: nat where
  "DEFAULT_BACKOFF_MAX = 120"

text \<open>
  The constructor, called with the five keyword arguments of the source:
  \<^verbatim>\<open>Retry(total, backoff_factor, status_forcelist, raise_on_status, raise_on_redirect)\<close>.
\<close>

definition Retry :: "nat \<Rightarrow> nat \<Rightarrow> int list \<Rightarrow> bool \<Rightarrow> bool \<Rightarrow> retry" where
  "Retry tot factor forcelist on_status on_redirect =
     \<lparr>total = tot, backoff_factor = factor, status_forcelist = forcelist,
      raise_on_status = on_status, raise_on_redirect = on_redirect,
      allowed_methods = DEFAULT_ALLOWED_METHODS, respect_retry_after_header = True,
      consecutive_errors = 0\<rparr>"


definition RETRY_STRATEGY :: retry where
  "RETRY_STRATEGY = Retry 3 1 [429, 500, 502, 503, 504] False False"

definition is_method_retryable :: "retry \<Rightarrow> http_method \<Rightarrow> bool" where
  "is_method_retryable r m =
     (if allowed_methods r \<noteq> [] \<and> m \<notin> set (allowed_methods r) then False else True)"

definition is_retry :: "retry \<Rightarrow> http_method \<Rightarrow> int \<Rightarrow> bool \<Rightarrow> bool" where
  "is_retry r m code has_retry_after =
     (if \<not> is_method_retryable r m then False
      else if status_forcelist r \<noteq> [] \<and> code \<in> set (status_forcelist r) then True
      else 0 < total r \<and> respect_retry_after_header r \<and> has_retry_after
           \<and> code \<in> set RETRY_AFTER_STATUS_CODES)"

text \<open>
  \<open>increment\<close> for a response: one try less and one more failure in a row, or
  \<open>None\<close> for the \<open>MaxRetryError\<close> of a policy that is used up.
\<close>

definition increment :: "retry \<Rightarrow> retry option" where
  "increment r =
     (if total r = 0 then None
      else Some (r\<lparr>total := total r - 1, consecutive_errors := Suc (consecutive_errors r)\<rparr>))"

definition get_backoff_time :: "retry \<Rightarrow> nat" where
  "get_backoff_time r =
     (if consecutive_errors r \<le> 1 then 0
      else min DEFAULT_BACKOFF_MAX (backoff_factor r * 2 ^ (consecutive_errors r - 1)))"

text \<open>
  What the server sends back to one try: a status, and the seconds of a
  \<open>Retry-After\<close> header when it carries one.
\<close>

record answer =
  answer_status :: int
  retry_after :: "nat option"

text \<open>
  \<open>sleep\<close>: the seconds waited before the next try, the \<open>Retry-After\<close> of the
  response when it is positive and otherwise the backoff.
\<close>

definition sleep :: "retry \<Rightarrow> answer \<Rightarrow> nat" where
  "sleep r a =
     (case retry_after a of
        Some secs \<Rightarrow>
          if respect_retry_after_header r \<and> 0 < secs then secs else get_backoff_time r
      | None \<Rightarrow> get_backoff_time r)"

datatype final = Returned answer | MaxRetryError

text \<open>
  \<open>urlopen\<close> on the answers the server gives to the successive tries (requests passes
  \<open>redirect=False\<close>, so only the test for a retry is left): the seconds slept before
  each further try, and the response handed to the caller. One request is sent per
  sleep, and one more. \<open>None\<close> when the list holds no answer for a try that is made.
\<close>

fun urlopen :: "retry \<Rightarrow> http_method \<Rightarrow> answer list \<Rightarrow> (nat list \<times> final) option" where
  "urlopen r m [] = None"
| "urlopen r m (a # rest) =
     (if is_retry r m (answer_status a) (retry_after a \<noteq> None) then
        (case increment r of
           None \<Rightarrow> Some ([], if raise_on_status r then MaxRetryError else Returned a)
         | Some r' \<Rightarrow>
             (case urlopen r' m rest of
                None \<Rightarrow> None
              | Some (sleeps, fin) \<Rightarrow> Some (sleep r' a # sleeps, fin)))
      else Some ([], Returned a))"


definition session_post :: "answer list \<Rightarrow> (nat list \<times> final) option" where
  "session_post answers = urlopen RETRY_STRATEGY POST answers"

section \<open>The shared queue and result dictionary\<close>

text \<open>
  \<^verbatim>\<open>queue.Queue\<close> of the Python library, as the worker and the producer use it: the
  pending items, the count of unfinished tasks (raised by \<open>put\<close>, lowered by
  \<open>task_done\<close>, and the count that \<open>join\<close> waits on), and the capacity
  (\<open>maxsize\<close>, where 0 is unbounded). \<open>put\<close> on a full queue and \<open>get\<close> on an
  empty one block: they return \<open>None\<close> here and the caller stays where it is.
  \<open>task_done\<close> raises \<open>ValueError\<close> when no task is unfinished.
\<close>

record py_queue =
  items :: "string list"
  unfinished_tasks :: nat
  maxsize :: nat

definition q_full :: "py_queue \<Rightarrow> bool" where
  "q_full q = (0 < maxsize q \<and> maxsize q \<le> length (items q))"

definition q_put :: "string \<Rightarrow> py_queue \<Rightarrow> py_queue option" where
  "q_put x q =
     (if q_full q then None
      else Some (q\<lparr>items := items q @ [x], unfinished_tasks := Suc (unfinished_tasks q)\<rparr>))"

definition q_get :: "py_queue \<Rightarrow> (string \<times> py_queue) option" where
  "q_get q = (case items q of [] \<Rightarrow> None | x # xs \<Rightarrow> Some (x, q\<lparr>items := xs\<rparr>))"

definition task_done :: "py_queue \<Rightarrow> py_exception + py_queue" where
  "task_done q =
     (if unfinished_tasks q = 0 then Inl (ValueError ''task_done() called too many times'')
      else Inr (q\<lparr>unfinished_tasks := unfinished_tasks q - 1\<rparr>))"

record shared =
  queue :: py_queue
  results :: "string \<rightharpoonup> string"

section \<open>core/worker.py\<close>

text \<open>
  An identity is what one successful pass through the for loop of \<open>worker\<close> binds:
  the session and proxy (named by their \<open>session_id\<close>) and the token.
\<close>

record identity =
  session_id :: string
  token :: string

text \<open>
  What the surroundings decide in one step of a worker: whether
  \<open>generate_session_and_proxy\<close> raises or which session id it draws, the outcomes of
  the GET and of the POST, whether an exception other than those \<open>check_email\<close>
  handles escapes inside the try block of the worker, and whether the five seconds of
  \<^verbatim>\<open>q.get(timeout=5)\<close> have run out.
\<close>

record env =
  session_result :: "py_exception + string"
  get_outcome :: http_outcome
  post_outcome :: http_outcome
  unexpected :: bool
  timed_out :: bool

text \<open>
  The worker's place in its code. \<open>Acquiring a\<close>: about to run attempt \<open>a\<close> of the
  for loop. \<open>In_session i n\<close>: at the test of the inner while loop under identity
  \<open>i\<close>, with \<open>processed_in_session = n\<close>. \<open>Checking i n e\<close>: candidate \<open>e\<close>
  taken from the queue, about to call \<open>check_email\<close>. \<open>Requeueing i n e\<close>: the check
  has failed, about to \<open>q.put(e)\<close>. \<open>Finishing i n e brk\<close>: in the finally block,
  about to call \<open>task_done\<close>, with a \<open>break\<close> pending when \<open>brk\<close>.
  \<open>Crashed\<close>: left by an exception that nothing catches.
\<close>

datatype pc =
    Acquiring nat
  | In_session identity nat
  | Checking identity nat string
  | Requeueing identity nat string
  | Finishing identity nat string bool
  | EXITED_EXHAUSTED
  | EXITED_QUEUE_EMPTY
  | Crashed py_exception

text \<open>What a worker has done so far, newest first.\<close>

datatype event =
    Init_failed nat
  | Init_exhausted
  | New_session identity
  | Dequeued string
  | Check_failed string
  | Unexpected_error string
  | Recorded string string
  | Requeued string
  | Task_done
  | Rotating nat
  | Queue_empty

record worker =
  pc :: pc
  processed_total :: nat
  history :: "event list"

definition max_attempts :: nat where
  "max_attempts = 10"

text \<open>
  The body of the try block of the for loop: \<open>Some\<close> identity when the loop breaks,
  \<open>None\<close> when an exception was caught or the token was falsy.
\<close>

definition acquire :: "(string \<Rightarrow> tag list) \<Rightarrow> env \<Rightarrow> identity option" where
  "acquire html_parser ev =
     (case session_result ev of
        Inl ex \<Rightarrow> None
      | Inr sid \<Rightarrow>
          (case get_csrf_token html_parser (get_outcome ev) of
             Inl ex \<Rightarrow> None
           | Inr None \<Rightarrow> None
           | Inr (Some tok) \<Rightarrow>
               if tok \<noteq> [] then Some \<lparr>session_id = sid, token = tok\<rparr> else None))"

definition log_event :: "event \<Rightarrow> worker \<Rightarrow> worker" where
  "log_event e w = w\<lparr>history := e # history w\<rparr>"

text \<open>
  One step of \<open>worker(q, worker_id, emails_per_session, results, results_lock)\<close>:
  at most one operation on the shared queue or dictionary, together with the
  worker's own computation around it.
\<close>

definition worker_step ::
    "(string \<Rightarrow> tag list) \<Rightarrow> int \<Rightarrow> env \<Rightarrow> shared \<times> worker \<Rightarrow> shared \<times> worker" where
  "worker_step html_parser emails_per_session ev st =
     (let sh = fst st; w = snd st in
      case pc w of
        Acquiring a \<Rightarrow>
          (case acquire html_parser ev of
             Some i \<Rightarrow> (sh, log_event (New_session i) (w\<lparr>pc := In_session i 0\<rparr>))
           | None \<Rightarrow>
               if a < max_attempts
               then (sh, log_event (Init_failed a) (w\<lparr>pc := Acquiring (Suc a)\<rparr>))
               else (sh, log_event Init_exhausted
                           (log_event (Init_failed a) (w\<lparr>pc := EXITED_EXHAUSTED\<rparr>))))
      | In_session i n \<Rightarrow>
          if int n < emails_per_session then
            (case q_get (queue sh) of
               Some (email, q') \<Rightarrow>
                 (sh\<lparr>queue := q'\<rparr>, log_event (Dequeued email) (w\<lparr>pc := Checking i n email\<rparr>))
             | None \<Rightarrow>
                 if timed_out ev
                 then (sh, log_event Queue_empty (w\<lparr>pc := EXITED_QUEUE_EMPTY\<rparr>))
                 else (sh, w))
          else (sh, log_event (Rotating n) (w\<lparr>pc := Acquiring 1\<rparr>))
      | Checking i n email \<Rightarrow>
          if unexpected ev
          then (sh, log_event (Unexpected_error email) (w\<lparr>pc := Requeueing i n email\<rparr>))
          else
            (case check_email email (post_outcome ev) of
               None \<Rightarrow> (sh, log_event (Check_failed email) (w\<lparr>pc := Requeueing i n email\<rparr>))
             | Some (_, status) \<Rightarrow>
                 (sh\<lparr>results := (results sh)(email \<mapsto> status)\<rparr>,
                  log_event (Recorded email status) (w\<lparr>pc := Finishing i n email False\<rparr>)))
      | Requeueing i n email \<Rightarrow>
          (case q_put email (queue sh) of
             None \<Rightarrow> (sh, w)
           | Some q' \<Rightarrow>
               (sh\<lparr>queue := q'\<rparr>, log_event (Requeued email) (w\<lparr>pc := Finishing i n email True\<rparr>)))
      | Finishing i n email brk \<Rightarrow>
          (case task_done (queue sh) of
             Inl ex \<Rightarrow> (sh, w\<lparr>pc := Crashed ex\<rparr>)
           | Inr q' \<Rightarrow>
               (sh\<lparr>queue := q'\<rparr>,
                if brk
                then log_event (Rotating (Suc n)) (log_event Task_done
                       (w\<lparr>pc := Acquiring 1, processed_total := Suc (processed_total w)\<rparr>))
                else log_event Task_done
                       (w\<lparr>pc := In_session i (Suc n),
                          processed_total := Suc (processed_total w)\<rparr>)))
      | EXITED_EXHAUSTED \<Rightarrow> (sh, w)
      | EXITED_QUEUE_EMPTY \<Rightarrow> (sh, w)
      | Crashed ex \<Rightarrow> (sh, w))"

text \<open>A run of one worker alone: its steps one after the other.\<close>

definition worker_run ::
    "(string \<Rightarrow> tag list) \<Rightarrow> int \<Rightarrow> env list \<Rightarrow> shared \<times> worker \<Rightarrow> shared \<times> worker" where
  "worker_run html_parser emails_per_session evs st =
     foldl (\<lambda>s ev. worker_step html_parser emails_per_session ev s) st evs"

definition new_worker :: worker where
  "new_worker = \<lparr>pc = Acquiring 1, processed_total = 0, history = []\<rparr>"

section \<open>run.py and core/email\_loader.py: the threads together\<close>

text \<open>
  The producer thread and the pool of workers over one queue and one dictionary. An
  action is one step of one thread: the producer reading a line
  (\<open>email_producer\<close> strips it and puts it on the queue unless it is empty), or worker
  \<open>k\<close> taking a step. A list of actions is an interleaving; the threads are scheduled
  in any order. \<open>is_space\<close> holds of the ASCII characters that Python's
  \<open>str.strip\<close> removes: the space, 0x09 to 0x0D and 0x1C to 0x1F.
\<close>

definition is_space :: "char \<Rightarrow> bool" where
  "is_space c =
     (c \<in> set [CHR '' '', CHR 0x09, CHR 0x0A, CHR 0x0B, CHR 0x0C, CHR 0x0D,
                CHR 0x1C, CHR 0x1D, CHR 0x1E, CHR 0x1F])"

definition strip :: "string \<Rightarrow> string" where
  "strip s = rev (dropWhile is_space (rev (dropWhile is_space s)))"

record system =
  store :: shared
  workers :: "worker list"

datatype action = Produce string | Work nat env

definition sys_step ::
    "(string \<Rightarrow> tag list) \<Rightarrow> int \<Rightarrow> system \<Rightarrow> action \<Rightarrow> system" where
  "sys_step html_parser emails_per_session s a =
     (case a of
        Produce line \<Rightarrow>
          (let email = strip line in
           if email \<noteq> [] then
             (case q_put email (queue (store s)) of
                None \<Rightarrow> s
              | Some q' \<Rightarrow> s\<lparr>store := (store s)\<lparr>queue := q'\<rparr>\<rparr>)
           else s)
      | Work k ev \<Rightarrow>
          if k < length (workers s) then
            (let st = worker_step html_parser emails_per_session ev (store s, workers s ! k)
             in s\<lparr>store := fst st, workers := (workers s)[k := snd st]\<rparr>)
          else s)"

definition init_system :: "nat \<Rightarrow> nat \<Rightarrow> system" where
  "init_system n_workers capacity =
     \<lparr>store = \<lparr>queue = \<lparr>items = [], unfinished_tasks = 0, maxsize = capacity\<rparr>,
            results = Map.empty\<rparr>,
      workers = replicate n_workers new_worker\<rparr>"

definition run ::
    "(string \<Rightarrow> tag list) \<Rightarrow> int \<Rightarrow> system \<Rightarrow> action list \<Rightarrow> system" where
  "run html_parser emails_per_session s acts =
     foldl (sys_step html_parser emails_per_session) s acts"

section \<open>Reading a worker's history\<close>

text \<open>
  The number of candidates recorded under each identity of a history, the newest
  identity first: one entry per \<open>New_session\<close>, counting the \<open>Recorded\<close> events up
  to the next \<open>New_session\<close>.
\<close>

fun session_successes :: "event list \<Rightarrow> nat list" where
  "session_successes [] = []"
| "session_successes (New_session i # h) = 0 # session_successes h"
| "session_successes (Recorded e st # h) =
     (case session_successes h of [] \<Rightarrow> [] | c # cs \<Rightarrow> Suc c # cs)"
| "session_successes (ev # h) = session_successes h"

text \<open>
  Where a worker stands with the queue, read off its history alone. A candidate is
  taken (\<open>Holding\<close>); then either its result is recorded (\<open>Resolved\<close>), or the check
  fails (\<open>Failed\<close>) and the same candidate is put back (\<open>Put_back\<close>); then
  \<open>task_done\<close> is called and the worker is \<open>Idle\<close> again. Any other order of
  events, a second \<open>put\<close> or \<open>task_done\<close> for one \<open>get\<close>, or a \<open>get\<close> without
  its \<open>task_done\<close>, ends in \<open>Bad\<close> and stays there.
\<close>

datatype phase = Idle | Holding string | Failed string | Put_back string | Resolved string | Bad

fun phase_step :: "phase \<Rightarrow> event \<Rightarrow> phase" where
  "phase_step Idle (Dequeued e) = Holding e"
| "phase_step (Holding e) (Check_failed e') = (if e' = e then Failed e else Bad)"
| "phase_step (Holding e) (Unexpected_error e') = (if e' = e then Failed e else Bad)"
| "phase_step (Holding e) (Recorded e' st) = (if e' = e then Resolved e else Bad)"
| "phase_step (Failed e) (Requeued e') = (if e' = e then Put_back e else Bad)"
| "phase_step (Put_back e) Task_done = Idle"
| "phase_step (Resolved e) Task_done = Idle"
| "phase_step Idle (Init_failed a) = Idle"
| "phase_step Idle Init_exhausted = Idle"
| "phase_step Idle (New_session i) = Idle"
| "phase_step Idle (Rotating n) = Idle"
| "phase_step Idle Queue_empty = Idle"
| "phase_step p ev = Bad"

fun queue_phase :: "event list \<Rightarrow> phase" where
  "queue_phase [] = Idle"
| "queue_phase (ev # h) = phase_step (queue_phase h) ev"

fun is_dequeued :: "event \<Rightarrow> bool" where
  "is_dequeued (Dequeued e) = True"
| "is_dequeued ev = False"

fun is_task_done :: "event \<Rightarrow> bool" where
  "is_task_done Task_done = True"
| "is_task_done ev = False"

fun is_requeued :: "event \<Rightarrow> bool" where
  "is_requeued (Requeued e) = True"
| "is_requeued ev = False"

fun is_failure :: "event \<Rightarrow> bool" where
  "is_failure (Check_failed e) = True"
| "is_failure (Unexpected_error e) = True"
| "is_failure ev = False"

fun is_new_session :: "event \<Rightarrow> bool" where
  "is_new_session (New_session i) = True"
| "is_new_session ev = False"

fun is_recorded :: "event \<Rightarrow> bool" where
  "is_recorded (Recorded e st) = True"
| "is_recorded ev = False"

fun is_init_failed :: "event \<Rightarrow> bool" where
  "is_init_failed (Init_failed a) = True"
| "is_init_failed ev = False"

definition count_events :: "(event \<Rightarrow> bool) \<Rightarrow> event list \<Rightarrow> nat" where
  "count_events P h = length (filter P h)"

text \<open>Whether a worker holds a candidate for which it has not yet called \<open>task_done\<close>.\<close>

fun in_flight :: "pc \<Rightarrow> nat" where
  "in_flight (Checking i n e) = 1"
| "in_flight (Requeueing i n e) = 1"
| "in_flight (Finishing i n e brk) = 1"
| "in_flight p = 0"

fun is_crashed :: "pc \<Rightarrow> bool" where
  "is_crashed (Crashed ex) = True"
| "is_crashed p = False"

section \<open>Invariants\<close>

text \<open>
  What holds of a worker at each place of its code, in terms of its history: the
  bookkeeping of the attempts, of the candidate in hand and of the checks under the
  current identity.
\<close>

definition worker_inv :: "int \<Rightarrow> worker \<Rightarrow> bool" where
  "worker_inv eps w =
     ((\<forall>c \<in> set (session_successes (history w)). int c \<le> max 0 eps) \<and>
      (case pc w of
         Acquiring a \<Rightarrow>
           1 \<le> a \<and> a \<le> max_attempts \<and> queue_phase (history w) = Idle
           \<and> take (a - 1) (history w) = map Init_failed (rev [1..<a])
       | In_session i n \<Rightarrow>
           queue_phase (history w) = Idle
           \<and> (\<exists>c cs. session_successes (history w) = c # cs \<and> c \<le> n)
       | Checking i n e \<Rightarrow>
           queue_phase (history w) = Holding e \<and> int n < eps
           \<and> (\<exists>c cs. session_successes (history w) = c # cs \<and> c \<le> n)
       | Requeueing i n e \<Rightarrow>
           queue_phase (history w) = Failed e
       | Finishing i n e brk \<Rightarrow>
           queue_phase (history w) = (if brk then Put_back e else Resolved e)
           \<and> (\<not> brk \<longrightarrow> (\<exists>c cs. session_successes (history w) = c # cs \<and> c \<le> Suc n))
       | EXITED_EXHAUSTED \<Rightarrow>
           queue_phase (history w) = Idle
           \<and> take (Suc max_attempts) (history w)
               = Init_exhausted # map Init_failed (rev [1..<Suc max_attempts])
       | EXITED_QUEUE_EMPTY \<Rightarrow>
           queue_phase (history w) = Idle \<and> (\<exists>h. history w = Queue_empty # h)
       | Crashed ex \<Rightarrow> queue_phase (history w) \<noteq> Bad))"


text \<open>
  The unfinished tasks of the queue are the pending items and the candidates the workers
  hold; and no worker has been left by an exception.
\<close>

definition accounted :: "system \<Rightarrow> bool" where
  "accounted s =
     (unfinished_tasks (queue (store s))
        = length (items (queue (store s))) + sum_list (map (\<lambda>w. in_flight (pc w)) (workers s)))"

definition sys_inv :: "int \<Rightarrow> system \<Rightarrow> bool" where
  "sys_inv eps s =
     (accounted s \<and> (\<forall>w \<in> set (workers s). worker_inv eps w \<and> \<not> is_crashed (pc w)))"


section \<open>Fixtures\<close>

text \<open>
  A signup page that carries a token, surroundings in which every request succeeds, in
  which the POST is rate limited, and in which no session can be built; and the test
  that picks the steps of one worker out of an interleaving.
\<close>

definition signup_page :: "string \<Rightarrow> tag list" where
  "signup_page b =
     [Tag ''html'' []
        [Tag ''auto-check'' [(''src'', ''/email_validity_checks'')]
           [Tag ''input''
              [(''type'', ''hidden''), (''data-csrf'', ''true''), (''value'', ''tok123'')] []]]]"

definition env_ok :: env where
  "env_ok =
     \<lparr>session_result = Inr ''abcd0123'',
      get_outcome = Response \<lparr>status_code = 200, body = ''<html>''\<rparr>,
      post_outcome = Response \<lparr>status_code = 200, body = ''is available''\<rparr>,
      unexpected = False, timed_out = True\<rparr>"

definition env_blocked :: env where
  "env_blocked = env_ok\<lparr>post_outcome := Response \<lparr>status_code = 429, body = ''''\<rparr>\<rparr>"

definition env_no_session :: env where
  "env_no_session = env_ok\<lparr>session_result := Inl (RuntimeError ''Proxy session generation failed.'')\<rparr>"

fun is_work :: "nat \<Rightarrow> action \<Rightarrow> bool" where
  "is_work k (Work j ev) = (j = k)"
| "is_work k a = False"


definition acts_two_sessions :: "action list" where
  "acts_two_sessions =
     [Produce ''a@x.com'', Produce ''b@x.com'',
      Work 0 env_ok, Work 0 env_ok, Work 0 env_ok, Work 0 env_ok, Work 0 env_ok,
      Work 0 env_ok, Work 0 env_ok, Work 0 env_ok, Work 0 env_ok]"

definition acts_requeue :: "action list" where
  "acts_requeue =
     [Produce ''a@x.com'', Work 0 env_ok, Work 0 env_ok, Work 0 env_blocked, Work 0 env_ok]"

definition an_identity :: identity where
  "an_identity = \<lparr>session_id = ''abcd0123'', token = ''tok123''\<rparr>"

definition store_one :: shared where
  "store_one = \<lparr>queue = \<lparr>items = [], unfinished_tasks = 1, maxsize = 5000\<rparr>,
     results = Map.empty\<rparr>"

definition holding_worker :: worker where
  "holding_worker = new_worker\<lparr>pc := Checking an_identity 0 ''a@x.com''\<rparr>"

definition acts_queue_empty :: "action list" where
  "acts_queue_empty = [Work 0 env_ok, Work 0 env_ok]"

definition acts_all_fail :: "action list" where
  "acts_all_fail =
     [Produce ''a@x.com'',
      Work 0 env_no_session, Work 0 env_no_session, Work 0 env_no_session,
      Work 0 env_no_session, Work 0 env_no_session, Work 0 env_no_session,
      Work 0 env_no_session, Work 0 env_no_session, Work 0 env_no_session,
      Work 0 env_no_session]"

definition blank_page :: "string \<Rightarrow> tag list" where
  "blank_page b = [Tag ''html'' [] [Tag ''body'' [] []]]"

definition env_blank_page :: env where
  "env_blank_page = env_ok\<lparr>get_outcome := Response \<lparr>status_code = 200, body = ''<html></html>''\<rparr>\<rparr>"

definition env_unexpected :: env where
  "env_unexpected = env_ok\<lparr>unexpected := True\<rparr>"

text \<open>
  A queue of capacity 1 and one worker: the worker takes the first candidate, the
  producer fills the queue again, the check fails, and the worker and the producer go
  on for four more steps.
\<close>

definition acts_full_queue :: "action list" where
  "acts_full_queue =
     [Produce ''a@x.com'', Work 0 env_ok, Work 0 env_ok, Produce ''b@x.com'',
      Work 0 env_blocked, Work 0 env_ok, Work 0 env_ok, Produce ''c@x.com'', Work 0 env_ok]"

definition acts_full_queue_exception :: "action list" where
  "acts_full_queue_exception =
     [Produce ''a@x.com'', Work 0 env_ok, Work 0 env_ok, Produce ''b@x.com'',
      Work 0 env_unexpected, Work 0 env_ok, Work 0 env_ok, Produce ''c@x.com'', Work 0 env_ok]"




text \<open>
  The worker after \<open>m\<close> steps in which every attempt to acquire an identity failed.
\<close>

definition after_failures :: "nat \<Rightarrow> worker" where
  "after_failures m =
     (if m < max_attempts
      then \<lparr>pc = Acquiring (Suc m), processed_total = 0,
            history = map Init_failed (rev [1..<Suc m])\<rparr>
      else \<lparr>pc = EXITED_EXHAUSTED, processed_total = 0,
            history = Init_exhausted # map Init_failed (rev [1..<Suc max_attempts])\<rparr>)"

section \<open>Substring search is what it should be\<close>

lemma startswith_iff: "startswith s p \<longleftrightarrow> (\<exists>q. s = p @ q)"
  by (induction s p rule: startswith.induct) auto

lemma str_in_iff: "str_in sub s \<longleftrightarrow> (\<exists>p q. s = p @ sub @ q)"
proof (induction s)
  case Nil
  then show ?case by auto
next
  case (Cons c cs)
  show ?case
  proof
    assume "str_in sub (c # cs)"
    then consider "startswith (c # cs) sub" | "str_in sub cs" by auto
    then show "\<exists>p q. c # cs = p @ sub @ q"
    proof cases
      case 1
      then obtain q where "c # cs = sub @ q" by (auto simp: startswith_iff)
      then have "c # cs = [] @ sub @ q" by simp
      then show ?thesis by blast
    next
      case 2
      then obtain p q where "cs = p @ sub @ q" using Cons.IH by auto
      then have "c # cs = (c # p) @ sub @ q" by simp
      then show ?thesis by blast
    qed
  next
    assume "\<exists>p q. c # cs = p @ sub @ q"
    then obtain p q where pq: "c # cs = p @ sub @ q" by blast
    show "str_in sub (c # cs)"
    proof (cases p)
      case Nil
      with pq have "startswith (c # cs) sub" by (auto simp: startswith_iff)
      then show ?thesis by simp
    next
      case (Cons a p')
      with pq have "cs = p' @ sub @ q" by simp
      then have "str_in sub cs" using Cons.IH by blast
      then show ?thesis by simp
    qed
  qed
qed

section \<open>Properties of check\_email\<close>

text \<open>
  C2. Whenever \<open>check_email\<close> classifies a response (returns a pair rather than
  \<open>None\<close>), the status string is decided by the body alone, in this order: a body
  containing "already associated with an account" gives "Registered"; otherwise a body
  containing "is available" or "looks good" gives "Not registered"; any other body gives
  "Unclear".
\<close>

theorem check_email_classification:
  assumes "check_email email (Response r) \<noteq> None"
  shows "check_email email (Response r) =
     Some (email,
       if str_in ''already associated with an account'' (body r) then ''Registered''
       else if str_in ''is available'' (body r) \<or> str_in ''looks good'' (body r)
         then ''Not registered''
       else ''Unclear'')"
  using assms by (simp add: check_email_def split: if_splits)

theorem check_email_classification_witness:
  "check_email ''a@x.com'' (Response \<lparr>status_code = 200, body = ''Email is available''\<rparr>) \<noteq> None
   \<and> check_email ''a@x.com'' (Response \<lparr>status_code = 200, body = ''Email is available''\<rparr>)
       = Some (''a@x.com'', ''Not registered'')"
proof -
  have h: "check_email ''a@x.com''
      (Response \<lparr>status_code = 200, body = ''Email is available''\<rparr>) \<noteq> None"
    by (simp add: check_email_def)
  show ?thesis
    using h check_email_classification [OF h] by simp
qed

text \<open>
  C3, as stated: a pair is returned only for a 2xx status, and every non-2xx response
  gives \<open>None\<close>. The source tests five status codes and nothing else, so a 422 whose
  body carries the marker of a taken address reaches the body tests and is classified.
\<close>

theorem check_email_non_2xx_counterexample:
  "\<not> (200 \<le> (422::int) \<and> (422::int) < 300)
   \<and> check_email ''taken@x.com''
        (Response \<lparr>status_code = 422,
           body = ''Email is already associated with an account''\<rparr>)
       = Some (''taken@x.com'', ''Registered'')"
  by (simp add: check_email_def)

text \<open>
  C3, amended: \<open>check_email\<close> returns \<open>None\<close> for a response exactly when its status
  is 429, 403, 401, 301 or 302, and for every exception raised by the request; every
  other status code, 2xx or not, gives a classification of the body.
\<close>

theorem check_email_none_iff:
  "(check_email email (Response r) = None
      \<longleftrightarrow> status_code r = 429 \<or> status_code r = 403 \<or> status_code r = 401
          \<or> status_code r = 301 \<or> status_code r = 302)
   \<and> check_email email (Raised e) = None"
  by (simp add: check_email_def)

theorem check_email_none_iff_witness:
  "check_email ''a@x.com'' (Response \<lparr>status_code = 403, body = ''is available''\<rparr>) = None
   \<and> check_email ''a@x.com'' (Response \<lparr>status_code = 500, body = ''is available''\<rparr>) \<noteq> None
   \<and> check_email ''a@x.com'' (Raised Timeout) = None"
  using check_email_none_iff [of "''a@x.com''" "\<lparr>status_code = 403, body = ''is available''\<rparr>" Timeout]
    check_email_none_iff [of "''a@x.com''" "\<lparr>status_code = 500, body = ''is available''\<rparr>" Timeout]
  by simp

text \<open>
  C4. A response with status 429, 401, 403, 301 or 302 gives \<open>None\<close>, whatever its
  body is, and so never a classification.
\<close>

theorem check_email_failure_statuses:
  assumes "status_code r \<in> {429, 401, 403, 301, 302}"
  shows "check_email email (Response r) = None"
  using assms by (auto simp: check_email_def)

theorem check_email_failure_statuses_witness:
  "(429::int) \<in> {429, 401, 403, 301, 302}
   \<and> check_email ''taken@x.com''
        (Response \<lparr>status_code = 429, body = ''already associated with an account''\<rparr>) = None"
proof -
  have h: "status_code \<lparr>status_code = 429, body = ''already associated with an account''\<rparr>
      \<in> {429, 401, 403, 301, 302}"
    by simp
  show ?thesis
    using check_email_failure_statuses [OF h, of "''taken@x.com''"] by simp
qed

text \<open>
  C10. The test for "already associated with an account" comes first: a classified
  response whose body holds that phrase is "Registered", also when the body holds
  "is available" or "looks good" as well. The first component of every returned pair is
  the candidate that was passed in.
\<close>

theorem check_email_registered_first:
  "(check_email email (Response r) \<noteq> None
      \<and> str_in ''already associated with an account'' (body r)
      \<and> (str_in ''is available'' (body r) \<or> str_in ''looks good'' (body r))
    \<longrightarrow> check_email email (Response r) = Some (email, ''Registered''))
   \<and> (check_email email outcome = Some p \<longrightarrow> fst p = email)"
  by (auto simp: check_email_def split: http_outcome.splits if_splits)

theorem check_email_registered_first_witness:
  "check_email ''taken@x.com''
     (Response \<lparr>status_code = 200,
        body = ''looks good, but is already associated with an account''\<rparr>)
     = Some (''taken@x.com'', ''Registered'')
   \<and> fst (''taken@x.com'', ''Registered'') = ''taken@x.com''"
proof -
  let ?r = "\<lparr>status_code = 200,
      body = ''looks good, but is already associated with an account''\<rparr>"
  have a: "check_email ''taken@x.com'' (Response ?r) \<noteq> None"
    by (simp add: check_email_def)
  have b: "str_in ''already associated with an account'' (body ?r)" by simp
  have c: "str_in ''looks good'' (body ?r)" by simp
  from check_email_registered_first
    [of "''taken@x.com''" ?r "Response ?r" "(''taken@x.com'', ''Registered'')"] a b c
  show ?thesis by simp
qed

section \<open>The worker keeps its invariant\<close>

lemma worker_inv_new: "worker_inv eps new_worker"
  by (simp add: worker_inv_def new_worker_def max_attempts_def)

lemma failed_prefix_step:
  "1 \<le> a \<Longrightarrow> take (a - 1) h = map Init_failed (rev [1..<a])
   \<Longrightarrow> take a (Init_failed a # h) = map Init_failed (rev [1..<Suc a])"
  by (cases a) auto

lemma worker_inv_step:
  assumes "worker_inv eps w"
  shows "worker_inv eps (snd (worker_step P eps ev (s, w)))"
proof (cases "pc w")
  case (Acquiring a)
  show ?thesis
  proof (cases "acquire P ev")
    case (Some i)
    with Acquiring assms show ?thesis
      by (auto simp: worker_inv_def worker_step_def log_event_def)
  next
    case None
    from Acquiring assms have a: "1 \<le> a" "a \<le> max_attempts"
      and ph: "queue_phase (history w) = Idle"
      and pre: "take (a - 1) (history w) = map Init_failed (rev [1..<a])"
      and old: "\<forall>c \<in> set (session_successes (history w)). int c \<le> max 0 eps"
      by (auto simp: worker_inv_def)
    have nxt: "take a (Init_failed a # history w) = map Init_failed (rev [1..<Suc a])"
      using a(1) pre by (rule failed_prefix_step)
    show ?thesis
    proof (cases "a < max_attempts")
      case True
      with Acquiring None a ph old nxt show ?thesis
        by (simp add: worker_inv_def worker_step_def log_event_def)
    next
      case False
      with a have "a = max_attempts" by simp
      with Acquiring None ph old nxt show ?thesis
        by (simp add: worker_inv_def worker_step_def log_event_def)
    qed
  qed
next
  case (In_session i n)
  with assms show ?thesis
    by (auto simp: worker_inv_def worker_step_def log_event_def max_attempts_def
        split: option.splits)
next
  case (Checking i n e)
  with assms show ?thesis
    by (auto simp: worker_inv_def worker_step_def log_event_def split: option.splits)
next
  case (Requeueing i n e)
  with assms show ?thesis
    by (auto simp: worker_inv_def worker_step_def log_event_def split: option.splits)
next
  case (Finishing i n e brk)
  with assms show ?thesis
    by (auto simp: worker_inv_def worker_step_def log_event_def max_attempts_def
        split: option.splits sum.splits)
next
  case EXITED_EXHAUSTED
  with assms show ?thesis by (simp add: worker_step_def)
next
  case EXITED_QUEUE_EMPTY
  with assms show ?thesis by (simp add: worker_step_def)
next
  case (Crashed ex)
  with assms show ?thesis by (simp add: worker_step_def)
qed

section \<open>The threads together keep theirs\<close>

lemma step_accounting:
  assumes "\<not> is_crashed (pc (snd (worker_step P eps ev (s, w))))"
  shows "unfinished_tasks (queue (fst (worker_step P eps ev (s, w))))
           + length (items (queue s)) + in_flight (pc w)
         = unfinished_tasks (queue s)
           + length (items (queue (fst (worker_step P eps ev (s, w)))))
           + in_flight (pc (snd (worker_step P eps ev (s, w))))"
  using assms
  by (cases "pc w")
     (auto simp: worker_step_def log_event_def q_get_def q_put_def task_done_def
        split: option.splits sum.splits list.splits if_splits)

lemma step_no_crash:
  assumes "\<not> is_crashed (pc w)" and "in_flight (pc w) = 1 \<longrightarrow> 0 < unfinished_tasks (queue s)"
  shows "\<not> is_crashed (pc (snd (worker_step P eps ev (s, w))))"
  using assms
  by (cases "pc w")
     (auto simp: worker_step_def log_event_def task_done_def
        split: option.splits sum.splits if_splits)

lemma sum_list_map_update:
  "k < length ws \<Longrightarrow>
   sum_list (map f (ws[k := w'])) + f (ws ! k) = sum_list (map f ws) + (f w' :: nat)"
proof (induction ws arbitrary: k)
  case Nil
  then show ?case by simp
next
  case (Cons a ws)
  then show ?case by (cases k) auto
qed

lemma in_flight_le_sum:
  "k < length ws \<Longrightarrow> in_flight (pc (ws ! k)) \<le> sum_list (map (\<lambda>w. in_flight (pc w)) ws)"
proof (induction ws arbitrary: k)
  case Nil
  then show ?case by simp
next
  case (Cons a ws)
  then show ?case by (cases k) (auto intro: trans_le_add2)
qed

lemma sys_inv_init: "sys_inv eps (init_system n cap)"
proof -
  have "in_flight (pc new_worker) = 0" by (simp add: new_worker_def)
  then show ?thesis
    using worker_inv_new [of eps]
    by (simp add: sys_inv_def accounted_def init_system_def sum_list_replicate)
       (simp add: new_worker_def)
qed

lemma sys_inv_step:
  assumes "sys_inv eps s"
  shows "sys_inv eps (sys_step P eps s a)"
proof (cases a)
  case (Produce line)
  with assms show ?thesis
    by (auto simp: sys_inv_def accounted_def sys_step_def Let_def q_put_def
        split: option.splits if_splits)
next
  case (Work k ev)
  show ?thesis
  proof (cases "k < length (workers s)")
    case False
    with Work assms show ?thesis by (simp add: sys_step_def)
  next
    case True
    let ?w = "workers s ! k"
    let ?st = "worker_step P eps ev (store s, ?w)"
    have mem: "?w \<in> set (workers s)" using True by simp
    with assms have winv: "worker_inv eps ?w" and nc: "\<not> is_crashed (pc ?w)"
      by (auto simp: sys_inv_def)
    from assms have acc: "accounted s" by (simp add: sys_inv_def)
    have le: "in_flight (pc ?w) \<le> sum_list (map (\<lambda>w. in_flight (pc w)) (workers s))"
      using True by (rule in_flight_le_sum)
    have pos: "in_flight (pc ?w) = 1 \<longrightarrow> 0 < unfinished_tasks (queue (store s))"
      using acc le by (auto simp: accounted_def)
    have nc': "\<not> is_crashed (pc (snd ?st))"
      using nc pos by (rule step_no_crash)
    have winv': "worker_inv eps (snd ?st)"
      using winv by (rule worker_inv_step)
    have eq: "sys_step P eps s a = s\<lparr>store := fst ?st, workers := (workers s)[k := snd ?st]\<rparr>"
      using Work True by (simp add: sys_step_def Let_def)
    have sum: "sum_list (map (\<lambda>w. in_flight (pc w)) ((workers s)[k := snd ?st]))
                 + in_flight (pc ?w)
               = sum_list (map (\<lambda>w. in_flight (pc w)) (workers s)) + in_flight (pc (snd ?st))"
      using True by (rule sum_list_map_update)
    have acc': "accounted (sys_step P eps s a)"
      using acc sum step_accounting [OF nc'] by (simp add: eq accounted_def)
    have all': "\<forall>w \<in> set ((workers s)[k := snd ?st]). worker_inv eps w \<and> \<not> is_crashed (pc w)"
    proof
      fix w assume "w \<in> set ((workers s)[k := snd ?st])"
      then have "w = snd ?st \<or> w \<in> set (workers s)"
        using set_update_subset_insert [of "workers s" k "snd ?st"] by auto
      then show "worker_inv eps w \<and> \<not> is_crashed (pc w)"
        using winv' nc' assms by (auto simp: sys_inv_def)
    qed
    show ?thesis using acc' all' by (simp add: sys_inv_def eq)
  qed
qed

lemma sys_inv_run:
  "sys_inv eps s \<Longrightarrow> sys_inv eps (run P eps s acts)"
  by (induction acts arbitrary: s) (simp_all add: run_def sys_inv_step)

lemma length_workers_step: "length (workers (sys_step P eps s a)) = length (workers s)"
  by (cases a) (auto simp: sys_step_def Let_def split: option.splits)

lemma length_workers_run: "length (workers (run P eps s acts)) = length (workers s)"
  by (induction acts arbitrary: s) (simp_all add: run_def length_workers_step)

section \<open>What a history without \<open>Bad\<close> says\<close>

lemma phase_step_Bad [simp]: "phase_step Bad ev = Bad"
  by (cases ev) simp_all

lemma queue_phase_tail: "queue_phase (ev # h) \<noteq> Bad \<Longrightarrow> queue_phase h \<noteq> Bad"
  by (cases "queue_phase h = Bad") simp_all

lemma session_successes_length:
  "length (session_successes h) = count_events is_new_session h"
  by (induction h rule: session_successes.induct)
     (auto simp: count_events_def split: list.splits)

lemma dequeued_task_done_count:
  "queue_phase h \<noteq> Bad \<Longrightarrow>
   count_events is_dequeued h
     = count_events is_task_done h + (if queue_phase h = Idle then 0 else 1)"
proof (induction h)
  case Nil
  then show ?case by (simp add: count_events_def)
next
  case (Cons ev h)
  then have ih: "count_events is_dequeued h
     = count_events is_task_done h + (if queue_phase h = Idle then 0 else 1)"
    using queue_phase_tail by blast
  from Cons.prems ih show ?case
    by (cases "queue_phase h"; cases ev) (auto simp: count_events_def split: if_splits)
qed

lemma failures_requeued_count:
  "queue_phase h \<noteq> Bad \<Longrightarrow>
   count_events is_failure h
     = count_events is_requeued h + (case queue_phase h of Failed e \<Rightarrow> 1 | _ \<Rightarrow> 0)"
proof (induction h)
  case Nil
  then show ?case by (simp add: count_events_def)
next
  case (Cons ev h)
  then have ih: "count_events is_failure h
     = count_events is_requeued h + (case queue_phase h of Failed e \<Rightarrow> 1 | _ \<Rightarrow> 0)"
    using queue_phase_tail by blast
  from Cons.prems ih show ?case
    by (cases "queue_phase h"; cases ev) (auto simp: count_events_def split: if_splits)
qed

lemma worker_inv_phase:
  assumes "worker_inv eps w"
  shows "queue_phase (history w) \<noteq> Bad"
    and "\<not> is_crashed (pc w) \<Longrightarrow> (if queue_phase (history w) = Idle then 0 else 1) = in_flight (pc w)"
  using assms by (cases "pc w"; auto simp: worker_inv_def)+

section \<open>Every interleaving\<close>

lemma reach_inv: "sys_inv eps (run P eps (init_system n cap) acts)"
  by (rule sys_inv_run) (rule sys_inv_init)

lemma reach_worker:
  assumes "k < n"
  shows "worker_inv eps (workers (run P eps (init_system n cap) acts) ! k)"
    and "\<not> is_crashed (pc (workers (run P eps (init_system n cap) acts) ! k))"
proof -
  have "length (workers (run P eps (init_system n cap) acts)) = n"
    by (simp add: length_workers_run init_system_def)
  with assms have "workers (run P eps (init_system n cap) acts) ! k
      \<in> set (workers (run P eps (init_system n cap) acts))"
    by simp
  with reach_inv [of eps P n cap acts]
  show "worker_inv eps (workers (run P eps (init_system n cap) acts) ! k)"
    and "\<not> is_crashed (pc (workers (run P eps (init_system n cap) acts) ! k))"
    by (auto simp: sys_inv_def)
qed

lemma failure_path:
  assumes "pc w = Checking i m e"
    and "unexpected ev \<or> check_email e (post_outcome ev) = None"
    and "\<not> q_full (queue s)" and "0 < unfinished_tasks (queue s)"
  shows "worker_run P eps [ev, ev', ev''] (s, w)
     = (s\<lparr>queue := (queue s)\<lparr>items := items (queue s) @ [e]\<rparr>\<rparr>,
        w\<lparr>pc := Acquiring 1, processed_total := Suc (processed_total w),
          history := Rotating (Suc m) # Task_done # Requeued e
            # (if unexpected ev then Unexpected_error e else Check_failed e) # history w\<rparr>)"
  using assms
  by (auto simp: worker_run_def worker_step_def log_event_def q_put_def task_done_def)

lemma success_path:
  assumes "pc w = Checking i m e"
    and "\<not> unexpected ev" and "check_email e (post_outcome ev) = Some (e', status)"
    and "0 < unfinished_tasks (queue s)"
  shows "worker_run P eps [ev, ev'] (s, w)
     = (s\<lparr>queue := (queue s)\<lparr>unfinished_tasks := unfinished_tasks (queue s) - 1\<rparr>,
          results := (results s)(e \<mapsto> status)\<rparr>,
        w\<lparr>pc := In_session i (Suc m), processed_total := Suc (processed_total w),
          history := Task_done # Recorded e status # history w\<rparr>)"
  using assms
  by (auto simp: worker_run_def worker_step_def log_event_def task_done_def)

section \<open>A worker whose attempts all fail\<close>

lemma after_failures_0: "after_failures 0 = new_worker"
  by (simp add: after_failures_def new_worker_def max_attempts_def)

lemma after_failures_step:
  assumes "acquire P ev = None"
  shows "worker_step P eps ev (s, after_failures m) = (s, after_failures (Suc m))"
proof -
  consider "Suc m < max_attempts" | "Suc m = max_attempts" | "max_attempts \<le> m" by linarith
  then show ?thesis
  proof cases
    case 1
    then show ?thesis using assms
      by (simp add: after_failures_def worker_step_def log_event_def)
  next
    case 2
    then have "m < max_attempts" "\<not> Suc m < max_attempts" by simp_all
    then show ?thesis using assms 2
      by (simp add: after_failures_def worker_step_def log_event_def)
  next
    case 3
    then show ?thesis
      by (simp add: after_failures_def worker_step_def)
  qed
qed

lemma run_snoc: "run P eps s (acts @ [a]) = sys_step P eps (run P eps s acts) a"
  by (simp add: run_def)

lemma workers_init: "k < n \<Longrightarrow> workers (init_system n cap) ! k = new_worker"
  by (simp add: init_system_def)

lemma failing_worker_state:
  assumes "k < n" and "\<forall>ev. Work k ev \<in> set acts \<longrightarrow> acquire P ev = None"
  shows "workers (run P eps (init_system n cap) acts) ! k
           = after_failures (length (filter (is_work k) acts))"
  using assms(2)
proof (induction acts rule: rev_induct)
  case Nil
  then show ?case using assms(1) by (simp add: run_def workers_init after_failures_0)
next
  case (snoc a acts)
  let ?s = "run P eps (init_system n cap) acts"
  have len: "length (workers ?s) = n"
    by (simp add: length_workers_run init_system_def)
  from snoc have ih: "workers ?s ! k = after_failures (length (filter (is_work k) acts))"
    by simp
  show ?case
  proof (cases a)
    case (Produce line)
    then have "workers (sys_step P eps ?s a) = workers ?s"
      by (simp add: sys_step_def Let_def split: option.splits)
    with ih Produce show ?thesis by (simp add: run_snoc)
  next
    case (Work j ev)
    show ?thesis
    proof (cases "j = k")
      case True
      with Work snoc.prems have fail: "acquire P ev = None" by simp
      from True Work assms(1) len ih fail show ?thesis
        by (simp add: run_snoc sys_step_def Let_def after_failures_step)
    next
      case False
      with Work ih show ?thesis
        by (simp add: run_snoc sys_step_def Let_def)
    qed
  qed
qed

lemma after_failures_counts:
  "count_events is_init_failed (history (after_failures m)) = min m max_attempts"
  "count_events is_recorded (history (after_failures m)) = 0"
  by (auto simp: after_failures_def count_events_def filter_map comp_def
      simp del: upt_Suc)

section \<open>Properties of the worker\<close>

text \<open>
  C1, as stated: under every identity the number of recorded checks is at most
  \<open>emails_per_session\<close>. The command line takes any integer for it; with \<open>-1\<close> a
  worker acquires an identity, records nothing under it, and 0 is not at most \<open>-1\<close>.
\<close>

theorem session_budget_negative_counterexample:
  "pc (workers (run signup_page (- 1) (init_system 1 5000) [Work 0 env_ok]) ! 0)
     = In_session an_identity 0
   \<and> session_successes
        (history (workers (run signup_page (- 1) (init_system 1 5000) [Work 0 env_ok]) ! 0)) = [0]
   \<and> \<not> int 0 \<le> (- 1 :: int)"
  by code_simp

text \<open>
  C1, amended. In every interleaving of the producer and \<open>n\<close> workers, the history of
  each worker has one count per identity it acquired, and each count (the checks recorded
  under that identity) is at most \<open>max 0 emails_per_session\<close>: at most
  \<open>emails_per_session\<close> whenever that is not negative. And a worker at the test of
  its inner loop with \<open>processed_in_session\<close> no longer below \<open>emails_per_session\<close>
  rotates, whatever the surroundings do: it goes back to the first attempt of the
  acquisition and leaves the queue and the results alone.
\<close>

theorem session_budget:
  assumes "k < n" and "h = history (workers (run P eps (init_system n cap) acts) ! k)"
  shows "length (session_successes h) = count_events is_new_session h
     \<and> (\<forall>c \<in> set (session_successes h). int c \<le> max 0 eps)
     \<and> (pc w = In_session i m \<and> \<not> int m < eps
          \<longrightarrow> worker_step P eps ev (s, w) = (s, log_event (Rotating m) (w\<lparr>pc := Acquiring 1\<rparr>)))"
proof -
  have "worker_inv eps (workers (run P eps (init_system n cap) acts) ! k)"
    using assms(1) by (rule reach_worker)
  then have "\<forall>c \<in> set (session_successes h). int c \<le> max 0 eps"
    using assms(2) by (simp add: worker_inv_def)
  moreover have "pc w = In_session i m \<and> \<not> int m < eps
      \<longrightarrow> worker_step P eps ev (s, w) = (s, log_event (Rotating m) (w\<lparr>pc := Acquiring 1\<rparr>))"
    by (simp add: worker_step_def)
  ultimately show ?thesis by (simp add: session_successes_length)
qed

theorem session_budget_witness:
  "(0::nat) < 1
   \<and> session_successes
        (history (workers (run signup_page 1 (init_system 1 5000) acts_two_sessions) ! 0)) = [1, 1]
   \<and> int 1 \<le> max 0 1
   \<and> worker_step signup_page 1 env_ok
        (store (init_system 1 5000), new_worker\<lparr>pc := In_session an_identity 1\<rparr>)
      = (store (init_system 1 5000),
         log_event (Rotating 1) (new_worker\<lparr>pc := Acquiring 1\<rparr>))"
proof -
  have k: "(0::nat) < 1" by simp
  have ev: "session_successes
      (history (workers (run signup_page 1 (init_system 1 5000) acts_two_sessions) ! 0)) = [1, 1]"
    by code_simp
  have p: "pc (new_worker\<lparr>pc := In_session an_identity 1\<rparr>) = In_session an_identity 1
      \<and> \<not> int 1 < 1"
    by simp
  from session_budget [OF k refl, of signup_page 1 5000 acts_two_sessions
      "new_worker\<lparr>pc := In_session an_identity 1\<rparr>" an_identity 1 env_ok
      "store (init_system 1 5000)"] ev p
  show ?thesis by simp
qed

section \<open>Properties of the token fetch and of exhaustion\<close>

text \<open>
  C7, as stated: \<open>get_csrf_token\<close> raises exactly when a 2xx page lacks the hidden
  token field. The source lets every status below 400 other than 301 and 302 through to
  the parser, so a 304 without the field raises as well.
\<close>

theorem get_csrf_token_not_modified_counterexample:
  "\<not> (200 \<le> (304::int) \<and> (304::int) < 300)
   \<and> get_csrf_token blank_page (Response \<lparr>status_code = 304, body = ''''\<rparr>)
       = Inl (RuntimeError ''Failed to parse CSRF token.'')"
  by (simp add: get_csrf_token_def raises_for_status_def csrf_input_def blank_page_def
      tag_matches_def)

text \<open>
  C7, amended. \<open>get_csrf_token\<close> returns \<open>None\<close> for the statuses 429, 401, 403,
  301 and 302, for every status that \<open>raise_for_status\<close> rejects, and for every
  exception of the request. It raises exactly when the response has any other status
  (every 2xx among them) and the page gives no non-empty value for the hidden token
  field: the field is missing, has no \<open>value\<close>, or has an empty one. In the worker
  that error fails the attempt at hand: the next attempt follows, or the exhausted exit
  when the attempts are used up, and the queue and the results are left alone.
\<close>

theorem get_csrf_token_failures:
  "(status_code r \<in> {429, 401, 403, 301, 302} \<longrightarrow> get_csrf_token P (Response r) = Inr None)
   \<and> (raises_for_status r \<longrightarrow> get_csrf_token P (Response r) = Inr None)
   \<and> get_csrf_token P (Raised err) = Inr None
   \<and> ((\<exists>ex. get_csrf_token P outcome = Inl ex) \<longleftrightarrow>
        (\<exists>r'. outcome = Response r'
           \<and> status_code r' \<notin> {429, 403, 401, 301, 302}
           \<and> \<not> raises_for_status r'
           \<and> (case csrf_input (P (body r')) of
                 None \<Rightarrow> True
               | Some inp \<Rightarrow> map_of (attrs inp) ''value'' \<in> {None, Some []})))
   \<and> (200 \<le> status_code r \<and> status_code r < 300 \<and> csrf_input (P (body r)) = None
        \<longrightarrow> (\<exists>ex. get_csrf_token P (Response r) = Inl ex))
   \<and> (get_csrf_token P (get_outcome ev) = Inl ex' \<and> pc w = Acquiring a
        \<longrightarrow> worker_step P eps ev (s, w)
            = (s, if a < max_attempts
                  then log_event (Init_failed a) (w\<lparr>pc := Acquiring (Suc a)\<rparr>)
                  else log_event Init_exhausted
                         (log_event (Init_failed a) (w\<lparr>pc := EXITED_EXHAUSTED\<rparr>))))"
proof -
  have a: "status_code r \<in> {429, 401, 403, 301, 302} \<longrightarrow> get_csrf_token P (Response r) = Inr None"
    by (auto simp: get_csrf_token_def)
  have b: "raises_for_status r \<longrightarrow> get_csrf_token P (Response r) = Inr None"
    by (auto simp: get_csrf_token_def)
  have c: "get_csrf_token P (Raised err) = Inr None"
    by (simp add: get_csrf_token_def)
  have d: "(\<exists>ex. get_csrf_token P outcome = Inl ex) \<longleftrightarrow>
        (\<exists>r'. outcome = Response r'
           \<and> status_code r' \<notin> {429, 403, 401, 301, 302}
           \<and> \<not> raises_for_status r'
           \<and> (case csrf_input (P (body r')) of
                 None \<Rightarrow> True
               | Some inp \<Rightarrow> map_of (attrs inp) ''value'' \<in> {None, Some []}))"
    by (auto simp: get_csrf_token_def split: http_outcome.splits option.splits if_splits)
  have e: "200 \<le> status_code r \<and> status_code r < 300 \<and> csrf_input (P (body r)) = None
        \<longrightarrow> (\<exists>ex. get_csrf_token P (Response r) = Inl ex)"
    by (auto simp: get_csrf_token_def raises_for_status_def)
  have f: "get_csrf_token P (get_outcome ev) = Inl ex' \<and> pc w = Acquiring a
        \<longrightarrow> worker_step P eps ev (s, w)
            = (s, if a < max_attempts
                  then log_event (Init_failed a) (w\<lparr>pc := Acquiring (Suc a)\<rparr>)
                  else log_event Init_exhausted
                         (log_event (Init_failed a) (w\<lparr>pc := EXITED_EXHAUSTED\<rparr>)))"
    by (auto simp: worker_step_def acquire_def split: sum.splits)
  from a b c d e f show ?thesis by blast
qed

theorem get_csrf_token_failures_witness:
  "get_csrf_token blank_page (Response \<lparr>status_code = 429, body = ''''\<rparr>) = Inr None
   \<and> get_csrf_token blank_page (Response \<lparr>status_code = 503, body = ''''\<rparr>) = Inr None
   \<and> get_csrf_token blank_page (Raised Timeout) = Inr None
   \<and> get_csrf_token blank_page (Response \<lparr>status_code = 200, body = ''<html></html>''\<rparr>)
       = Inl (RuntimeError ''Failed to parse CSRF token.'')
   \<and> get_csrf_token signup_page (Response \<lparr>status_code = 200, body = ''<html>''\<rparr>)
       = Inr (Some ''tok123'')
   \<and> worker_step blank_page 3 env_blank_page (store_one, new_worker)
       = (store_one, log_event (Init_failed 1) (new_worker\<lparr>pc := Acquiring (Suc 1)\<rparr>))"
proof -
  let ?r200 = "\<lparr>status_code = 200, body = ''<html></html>''\<rparr>"
  have v1: "get_csrf_token blank_page (Response ?r200)
       = Inl (RuntimeError ''Failed to parse CSRF token.'')"
    by (simp add: get_csrf_token_def raises_for_status_def csrf_input_def blank_page_def
        tag_matches_def)
  have v2: "get_csrf_token signup_page (Response \<lparr>status_code = 200, body = ''<html>''\<rparr>)
       = Inr (Some ''tok123'')"
    by (simp add: get_csrf_token_def raises_for_status_def csrf_input_def signup_page_def
        tag_matches_def)
  have p: "get_csrf_token blank_page (get_outcome env_blank_page)
        = Inl (RuntimeError ''Failed to parse CSRF token.'')
      \<and> pc new_worker = Acquiring 1"
    using v1 by (simp add: env_blank_page_def env_ok_def new_worker_def)
  have m: "(1::nat) < max_attempts" by (simp add: max_attempts_def)
  from get_csrf_token_failures [where P = blank_page
      and r = "\<lparr>status_code = 429, body = ''''\<rparr>" and err = Timeout
      and outcome = "Response ?r200" and ev = env_blank_page
      and ex' = "RuntimeError ''Failed to parse CSRF token.''" and w = new_worker and a = 1
      and eps = 3 and s = store_one]
    get_csrf_token_failures [where P = blank_page
      and r = "\<lparr>status_code = 503, body = ''''\<rparr>" and err = Timeout
      and outcome = "Response ?r200" and ev = env_blank_page
      and ex' = "RuntimeError ''Failed to parse CSRF token.''" and w = new_worker and a = 1
      and eps = 3 and s = store_one]
    v1 v2 p m
  show ?thesis by (simp add: raises_for_status_def)
qed

text \<open>
  C8. In every interleaving in which each attempt of worker \<open>k\<close> to acquire an
  identity fails, the worker after \<open>m\<close> of its steps is at attempt \<open>m + 1\<close> while
  \<open>m < max_attempts\<close> and has exited as exhausted from then on; its history counts
  \<open>min m max_attempts\<close> failed attempts, so exactly \<open>max_attempts\<close> at the exit,
  and no recorded result; and each of its steps leaves the queue and the results as they
  were.
\<close>

theorem all_attempts_fail_exhausts:
  assumes "k < n" and "\<forall>ev. Work k ev \<in> set acts \<longrightarrow> acquire P ev = None"
    and "w = workers (run P eps (init_system n cap) acts) ! k"
    and "m = length (filter (is_work k) acts)"
  shows "pc w = (if m < max_attempts then Acquiring (Suc m) else EXITED_EXHAUSTED)
     \<and> count_events is_init_failed (history w) = min m max_attempts
     \<and> count_events is_recorded (history w) = 0
     \<and> (acquire P ev' = None \<longrightarrow> fst (worker_step P eps ev' (s, w)) = s)"
proof -
  have w: "w = after_failures m"
    using assms failing_worker_state [OF assms(1) assms(2)] by simp
  have a: "pc w = (if m < max_attempts then Acquiring (Suc m) else EXITED_EXHAUSTED)"
    by (simp add: w after_failures_def)
  have b: "count_events is_init_failed (history w) = min m max_attempts"
    by (simp add: w after_failures_counts)
  have c: "count_events is_recorded (history w) = 0"
    by (simp add: w after_failures_counts)
  have d: "acquire P ev' = None \<longrightarrow> fst (worker_step P eps ev' (s, w)) = s"
    by (simp add: w after_failures_step)
  from a b c d show ?thesis by blast
qed

theorem all_attempts_fail_exhausts_witness:
  "(0::nat) < 1
   \<and> length (filter (is_work 0) acts_all_fail) = 10
   \<and> pc (workers (run signup_page 3 (init_system 1 5000) acts_all_fail) ! 0) = EXITED_EXHAUSTED
   \<and> count_events is_init_failed
        (history (workers (run signup_page 3 (init_system 1 5000) acts_all_fail) ! 0)) = 10
   \<and> count_events is_recorded
        (history (workers (run signup_page 3 (init_system 1 5000) acts_all_fail) ! 0)) = 0"
proof -
  have k: "(0::nat) < 1" by simp
  have f: "\<forall>ev. Work 0 ev \<in> set acts_all_fail \<longrightarrow> acquire signup_page ev = None"
    by (auto simp: acts_all_fail_def acquire_def env_no_session_def env_ok_def)
  have m: "length (filter (is_work 0) acts_all_fail) = 10"
    by (simp add: acts_all_fail_def)
  from all_attempts_fail_exhausts [OF k f refl refl, where eps = 3 and cap = 5000] m
  show ?thesis by (simp add: max_attempts_def)
qed

section \<open>The retry loop\<close>




lemma urlopen_not_retryable:
  "\<not> is_method_retryable r m \<Longrightarrow> urlopen r m (a # rest) = Some ([], Returned a)"
  by (simp add: is_retry_def)




lemma is_retry_post: "\<not> is_retry RETRY_STRATEGY POST code ra"
  by (simp add: is_retry_def is_method_retryable_def RETRY_STRATEGY_def Retry_def
      DEFAULT_ALLOWED_METHODS_def)

section \<open>Waiting on a full queue\<close>

lemma sys_step_work:
  "k < length (workers s) \<Longrightarrow>
   sys_step P eps s (Work k ev)
     = s\<lparr>store := fst (worker_step P eps ev (store s, workers s ! k)),
         workers := (workers s)[k := snd (worker_step P eps ev (store s, workers s ! k))]\<rparr>"
  by (simp add: sys_step_def Let_def)

lemma check_fails_step:
  "pc w = Checking i m e \<Longrightarrow> unexpected ev \<or> check_email e (post_outcome ev) = None \<Longrightarrow>
   worker_step P eps ev (s, w)
     = (s, log_event (if unexpected ev then Unexpected_error e else Check_failed e)
             (w\<lparr>pc := Requeueing i m e\<rparr>))"
  by (auto simp: worker_step_def)

lemma requeue_blocked_step:
  "pc w = Requeueing i m e \<Longrightarrow> q_full (queue s) \<Longrightarrow> worker_step P eps ev (s, w) = (s, w)"
  by (simp add: worker_step_def q_put_def)

lemma requeue_room_step:
  "pc w = Requeueing i m e \<Longrightarrow> \<not> q_full (queue s) \<Longrightarrow>
   worker_step P eps ev (s, w)
     = (s\<lparr>queue := (queue s)\<lparr>items := items (queue s) @ [e],
                                unfinished_tasks := Suc (unfinished_tasks (queue s))\<rparr>\<rparr>,
        log_event (Requeued e) (w\<lparr>pc := Finishing i m e True\<rparr>))"
  by (simp add: worker_step_def q_put_def)

lemma finishing_step:
  "pc w = Finishing i m e brk \<Longrightarrow> 0 < unfinished_tasks (queue s) \<Longrightarrow>
   worker_step P eps ev (s, w)
     = (s\<lparr>queue := (queue s)\<lparr>unfinished_tasks := unfinished_tasks (queue s) - 1\<rparr>\<rparr>,
        if brk
        then log_event (Rotating (Suc m)) (log_event Task_done
               (w\<lparr>pc := Acquiring 1, processed_total := Suc (processed_total w)\<rparr>))
        else log_event Task_done
               (w\<lparr>pc := In_session i (Suc m), processed_total := Suc (processed_total w)\<rparr>))"
  by (simp add: worker_step_def task_done_def)

lemma reach_length: "length (workers (run P eps (init_system n cap) acts)) = n"
  by (simp add: length_workers_run init_system_def)

lemma reach_holding_unfinished:
  assumes "k < n" and "s = run P eps (init_system n cap) acts"
    and "in_flight (pc (workers s ! k)) = 1"
  shows "0 < unfinished_tasks (queue (store s))"
proof -
  have "k < length (workers s)" using assms(1,2) by (simp add: reach_length)
  then have "in_flight (pc (workers s ! k)) \<le> sum_list (map (\<lambda>w. in_flight (pc w)) (workers s))"
    by (rule in_flight_le_sum)
  moreover have "accounted s" using reach_inv assms(2) by (simp add: sys_inv_def)
  ultimately show ?thesis using assms(3) by (simp add: accounted_def)
qed

text \<open>
  A full queue with every worker waiting to put its candidate back, or gone: no thread
  can take a step that changes anything, now or later.
\<close>

lemma deadlock_step:
  assumes "q_full (queue (store s))"
    and "\<forall>w \<in> set (workers s). (\<exists>i m e. pc w = Requeueing i m e)
           \<or> pc w = EXITED_EXHAUSTED \<or> pc w = EXITED_QUEUE_EMPTY"
  shows "sys_step P eps s a = s"
proof (cases a)
  case (Produce line)
  with assms(1) show ?thesis by (simp add: sys_step_def Let_def q_put_def)
next
  case (Work k ev)
  show ?thesis
  proof (cases "k < length (workers s)")
    case False
    with Work show ?thesis by (simp add: sys_step_def)
  next
    case True
    then have "workers s ! k \<in> set (workers s)" by simp
    with assms(2) have "(\<exists>i m e. pc (workers s ! k) = Requeueing i m e)
        \<or> pc (workers s ! k) = EXITED_EXHAUSTED \<or> pc (workers s ! k) = EXITED_QUEUE_EMPTY"
      by blast
    then have "worker_step P eps ev (store s, workers s ! k) = (store s, workers s ! k)"
      using assms(1) by (auto simp: requeue_blocked_step) (simp_all add: worker_step_def)
    with True Work show ?thesis by (simp add: sys_step_work)
  qed
qed

lemma deadlock_run:
  assumes "q_full (queue (store s))"
    and "\<forall>w \<in> set (workers s). (\<exists>i m e. pc w = Requeueing i m e)
           \<or> pc w = EXITED_EXHAUSTED \<or> pc w = EXITED_QUEUE_EMPTY"
  shows "run P eps s acts = s"
proof (induction acts)
  case Nil
  show ?case by (simp add: run_def)
next
  case (Cons a acts)
  have "sys_step P eps s a = s" using assms by (rule deadlock_step)
  with Cons show ?case by (simp add: run_def)
qed

section \<open>Properties of the queue discipline and of the retry policy\<close>

text \<open>
  C5, as stated: \<open>task_done\<close> is called exactly once for every candidate taken, and a
  candidate whose check fails is put back exactly once before it. \<open>q.put\<close> has no
  timeout: on a full queue the worker waits in it. Here the check of the candidate has
  failed, the queue is full, and four steps later the candidate has not been put back
  and \<open>task_done\<close> has not been called; by \<open>deadlock_run\<close> no later step changes
  that.
\<close>

theorem task_done_blocked_counterexample:
  "pc (workers (run signup_page 2 (init_system 1 1) acts_full_queue) ! 0)
     = Requeueing an_identity 0 ''a@x.com''
   \<and> items (queue (store (run signup_page 2 (init_system 1 1) acts_full_queue))) = [''b@x.com'']
   \<and> count_events is_dequeued
        (history (workers (run signup_page 2 (init_system 1 1) acts_full_queue) ! 0)) = 1
   \<and> count_events is_failure
        (history (workers (run signup_page 2 (init_system 1 1) acts_full_queue) ! 0)) = 1
   \<and> count_events is_requeued
        (history (workers (run signup_page 2 (init_system 1 1) acts_full_queue) ! 0)) = 0
   \<and> count_events is_task_done
        (history (workers (run signup_page 2 (init_system 1 1) acts_full_queue) ! 0)) = 0"
  by code_simp

text \<open>
  C5, amended. In every interleaving, the history of each worker never leaves the order
  get, then either record or (failure, put of the same candidate), then
  \<open>task_done\<close>: \<open>task_done\<close> is never called twice for one candidate, and a
  candidate is never put back twice. The history has as many \<open>get\<close>s as
  \<open>task_done\<close>s, plus one while the worker holds a candidate; every failed check has
  its one \<open>put\<close>, due only between the failure and the \<open>put\<close>; and the unfinished
  tasks of the queue are its pending items and the candidates in hand. From every state
  an interleaving reaches: a worker whose check fails, by a \<open>None\<close> result or by an
  exception, goes on to put the candidate back; while the queue is full it waits there
  and nothing changes; once the queue has room its step puts the candidate back, once;
  and its next step calls \<open>task_done\<close>, once and without error, which leaves the count
  of unfinished tasks as it was before the failure. A worker whose check succeeds
  records the result and its next step calls \<open>task_done\<close> once.
\<close>

theorem task_done_once_per_dequeue:
  assumes "k < n" and "s = run P eps (init_system n cap) acts" and "w = workers s ! k"
  shows "queue_phase (history w) \<noteq> Bad
     \<and> count_events is_dequeued (history w)
         = count_events is_task_done (history w) + in_flight (pc w)
     \<and> count_events is_failure (history w)
         = count_events is_requeued (history w)
           + (case queue_phase (history w) of Failed e \<Rightarrow> 1 | _ \<Rightarrow> 0)
     \<and> unfinished_tasks (queue (store s))
         = length (items (queue (store s))) + sum_list (map (\<lambda>w. in_flight (pc w)) (workers s))
     \<and> (pc w = Checking i m e \<and> (unexpected ev \<or> check_email e (post_outcome ev) = None)
        \<longrightarrow> sys_step P eps s (Work k ev)
            = s\<lparr>workers := (workers s)
                  [k := log_event (if unexpected ev then Unexpected_error e else Check_failed e)
                          (w\<lparr>pc := Requeueing i m e\<rparr>)]\<rparr>)
     \<and> (pc w = Requeueing i m e \<and> q_full (queue (store s))
        \<longrightarrow> sys_step P eps s (Work k ev) = s)
     \<and> (pc w = Requeueing i m e \<and> \<not> q_full (queue (store s))
        \<longrightarrow> sys_step P eps s (Work k ev)
            = s\<lparr>store := (store s)\<lparr>queue := (queue (store s))
                    \<lparr>items := items (queue (store s)) @ [e],
                     unfinished_tasks := Suc (unfinished_tasks (queue (store s)))\<rparr>\<rparr>,
                workers := (workers s)
                  [k := log_event (Requeued e) (w\<lparr>pc := Finishing i m e True\<rparr>)]\<rparr>)
     \<and> (pc w = Finishing i m e brk
        \<longrightarrow> 0 < unfinished_tasks (queue (store s))
            \<and> sys_step P eps s (Work k ev)
              = s\<lparr>store := (store s)\<lparr>queue := (queue (store s))
                      \<lparr>unfinished_tasks := unfinished_tasks (queue (store s)) - 1\<rparr>\<rparr>,
                  workers := (workers s)
                    [k := if brk
                          then log_event (Rotating (Suc m)) (log_event Task_done
                                 (w\<lparr>pc := Acquiring 1,
                                    processed_total := Suc (processed_total w)\<rparr>))
                          else log_event Task_done
                                 (w\<lparr>pc := In_session i (Suc m),
                                    processed_total := Suc (processed_total w)\<rparr>)]\<rparr>)
     \<and> (pc w0 = Checking i m e \<and> (unexpected ev \<or> check_email e (post_outcome ev) = None)
          \<and> \<not> q_full (queue s0) \<and> 0 < unfinished_tasks (queue s0)
        \<longrightarrow> worker_run P eps [ev, ev', ev''] (s0, w0)
            = (s0\<lparr>queue := (queue s0)\<lparr>items := items (queue s0) @ [e]\<rparr>\<rparr>,
               w0\<lparr>pc := Acquiring 1, processed_total := Suc (processed_total w0),
                 history := Rotating (Suc m) # Task_done # Requeued e
                   # (if unexpected ev then Unexpected_error e else Check_failed e)
                   # history w0\<rparr>))
     \<and> (pc w0 = Checking i m e \<and> \<not> unexpected ev
          \<and> check_email e (post_outcome ev) = Some (e', status)
          \<and> 0 < unfinished_tasks (queue s0)
        \<longrightarrow> worker_run P eps [ev, ev'] (s0, w0)
            = (s0\<lparr>queue := (queue s0)\<lparr>unfinished_tasks := unfinished_tasks (queue s0) - 1\<rparr>,
                 results := (results s0)(e \<mapsto> status)\<rparr>,
               w0\<lparr>pc := In_session i (Suc m), processed_total := Suc (processed_total w0),
                 history := Task_done # Recorded e status # history w0\<rparr>))"
proof -
  have "worker_inv eps (workers (run P eps (init_system n cap) acts) ! k)"
    using assms(1) by (rule reach_worker(1))
  then have inv: "worker_inv eps w" using assms by simp
  have "\<not> is_crashed (pc (workers (run P eps (init_system n cap) acts) ! k))"
    using assms(1) by (rule reach_worker(2))
  then have nc: "\<not> is_crashed (pc w)" using assms by simp
  have len: "k < length (workers s)" using assms(1,2) by (simp add: reach_length)
  have step: "\<And>ev. sys_step P eps s (Work k ev)
      = s\<lparr>store := fst (worker_step P eps ev (store s, w)),
          workers := (workers s)[k := snd (worker_step P eps ev (store s, w))]\<rparr>"
    using sys_step_work [OF len] assms(3) by simp
  have n1: "pc w = Checking i m e \<and> (unexpected ev \<or> check_email e (post_outcome ev) = None)
        \<longrightarrow> sys_step P eps s (Work k ev)
            = s\<lparr>workers := (workers s)
                  [k := log_event (if unexpected ev then Unexpected_error e else Check_failed e)
                          (w\<lparr>pc := Requeueing i m e\<rparr>)]\<rparr>"
    by (auto simp: step check_fails_step)
  have n2: "pc w = Requeueing i m e \<and> q_full (queue (store s))
        \<longrightarrow> sys_step P eps s (Work k ev) = s"
    using assms(3) by (auto simp: step requeue_blocked_step)
  have n3: "pc w = Requeueing i m e \<and> \<not> q_full (queue (store s))
        \<longrightarrow> sys_step P eps s (Work k ev)
            = s\<lparr>store := (store s)\<lparr>queue := (queue (store s))
                    \<lparr>items := items (queue (store s)) @ [e],
                     unfinished_tasks := Suc (unfinished_tasks (queue (store s)))\<rparr>\<rparr>,
                workers := (workers s)
                  [k := log_event (Requeued e) (w\<lparr>pc := Finishing i m e True\<rparr>)]\<rparr>"
    by (auto simp: step requeue_room_step)
  have n4: "pc w = Finishing i m e brk
        \<longrightarrow> 0 < unfinished_tasks (queue (store s))
            \<and> sys_step P eps s (Work k ev)
              = s\<lparr>store := (store s)\<lparr>queue := (queue (store s))
                      \<lparr>unfinished_tasks := unfinished_tasks (queue (store s)) - 1\<rparr>\<rparr>,
                  workers := (workers s)
                    [k := if brk
                          then log_event (Rotating (Suc m)) (log_event Task_done
                                 (w\<lparr>pc := Acquiring 1,
                                    processed_total := Suc (processed_total w)\<rparr>))
                          else log_event Task_done
                                 (w\<lparr>pc := In_session i (Suc m),
                                    processed_total := Suc (processed_total w)\<rparr>)]\<rparr>"
  proof
    assume f: "pc w = Finishing i m e brk"
    then have "in_flight (pc (workers s ! k)) = 1" using assms(3) by simp
    with assms(1,2) have pos: "0 < unfinished_tasks (queue (store s))"
      by (rule reach_holding_unfinished)
    show "0 < unfinished_tasks (queue (store s))
            \<and> sys_step P eps s (Work k ev)
              = s\<lparr>store := (store s)\<lparr>queue := (queue (store s))
                      \<lparr>unfinished_tasks := unfinished_tasks (queue (store s)) - 1\<rparr>\<rparr>,
                  workers := (workers s)
                    [k := if brk
                          then log_event (Rotating (Suc m)) (log_event Task_done
                                 (w\<lparr>pc := Acquiring 1,
                                    processed_total := Suc (processed_total w)\<rparr>))
                          else log_event Task_done
                                 (w\<lparr>pc := In_session i (Suc m),
                                    processed_total := Suc (processed_total w)\<rparr>)]\<rparr>"
      using pos by (simp add: step finishing_step [OF f pos])
  qed
  have good: "pc w0 = Checking i m e \<and> \<not> unexpected ev
          \<and> check_email e (post_outcome ev) = Some (e', status)
          \<and> 0 < unfinished_tasks (queue s0)
        \<longrightarrow> worker_run P eps [ev, ev'] (s0, w0)
            = (s0\<lparr>queue := (queue s0)\<lparr>unfinished_tasks := unfinished_tasks (queue s0) - 1\<rparr>,
                 results := (results s0)(e \<mapsto> status)\<rparr>,
               w0\<lparr>pc := In_session i (Suc m), processed_total := Suc (processed_total w0),
                 history := Task_done # Recorded e status # history w0\<rparr>)"
    using success_path by blast
  have ok: "queue_phase (history w) \<noteq> Bad"
    using inv by (rule worker_inv_phase(1))
  have fl: "(if queue_phase (history w) = Idle then 0 else 1) = in_flight (pc w)"
    using inv nc by (rule worker_inv_phase(2))
  have deq: "count_events is_dequeued (history w)
      = count_events is_task_done (history w) + in_flight (pc w)"
    using dequeued_task_done_count [OF ok] fl by simp
  have req: "count_events is_failure (history w)
      = count_events is_requeued (history w)
        + (case queue_phase (history w) of Failed e \<Rightarrow> 1 | _ \<Rightarrow> 0)"
    using ok by (rule failures_requeued_count)
  have acc: "unfinished_tasks (queue (store s))
      = length (items (queue (store s))) + sum_list (map (\<lambda>w. in_flight (pc w)) (workers s))"
    using reach_inv assms(2) by (simp add: sys_inv_def accounted_def)
  have path: "pc w0 = Checking i m e \<and> (unexpected ev \<or> check_email e (post_outcome ev) = None)
          \<and> \<not> q_full (queue s0) \<and> 0 < unfinished_tasks (queue s0)
        \<longrightarrow> worker_run P eps [ev, ev', ev''] (s0, w0)
            = (s0\<lparr>queue := (queue s0)\<lparr>items := items (queue s0) @ [e]\<rparr>\<rparr>,
               w0\<lparr>pc := Acquiring 1, processed_total := Suc (processed_total w0),
                 history := Rotating (Suc m) # Task_done # Requeued e
                   # (if unexpected ev then Unexpected_error e else Check_failed e)
                   # history w0\<rparr>)"
    using failure_path by blast
  show ?thesis
    apply (intro conjI)
    using ok deq req acc n1 n2 n3 n4 path good by blast+
qed

theorem task_done_once_per_dequeue_witness:
  "(0::nat) < 1
   \<and> queue_phase (history (workers (run signup_page 2 (init_system 1 5000) acts_requeue) ! 0))
       = Put_back ''a@x.com''
   \<and> count_events is_dequeued
        (history (workers (run signup_page 2 (init_system 1 5000) acts_requeue) ! 0)) = 1
   \<and> count_events is_task_done
        (history (workers (run signup_page 2 (init_system 1 5000) acts_requeue) ! 0)) = 0
   \<and> unfinished_tasks (queue (store (run signup_page 2 (init_system 1 5000) acts_requeue))) = 2
   \<and> unfinished_tasks (queue (store (sys_step signup_page 2
        (run signup_page 2 (init_system 1 5000) acts_requeue) (Work 0 env_ok)))) = 1
   \<and> items (queue (fst (worker_run signup_page 2 [env_blocked, env_ok, env_ok]
        (store_one, holding_worker)))) = [''a@x.com'']
   \<and> unfinished_tasks (queue (fst (worker_run signup_page 2 [env_blocked, env_ok, env_ok]
        (store_one, holding_worker)))) = 1"
proof -
  let ?s = "run signup_page 2 (init_system 1 5000) acts_requeue"
  have k: "(0::nat) < 1" by simp
  have a: "queue_phase (history (workers ?s ! 0)) = Put_back ''a@x.com''"
    by code_simp
  have b: "count_events is_dequeued (history (workers ?s ! 0)) = 1"
    by code_simp
  have c: "count_events is_task_done (history (workers ?s ! 0)) = 0"
    by code_simp
  have d: "unfinished_tasks (queue (store ?s)) = 2"
    by code_simp
  have f: "pc (workers ?s ! 0) = Finishing an_identity 0 ''a@x.com'' True"
    by code_simp
  have p: "pc holding_worker = Checking an_identity 0 ''a@x.com''
      \<and> (unexpected env_blocked \<or> check_email ''a@x.com'' (post_outcome env_blocked) = None)
      \<and> \<not> q_full (queue store_one) \<and> 0 < unfinished_tasks (queue store_one)"
    by (simp add: holding_worker_def env_blocked_def env_ok_def check_email_def q_full_def
        store_one_def)
  note t = task_done_once_per_dequeue [OF k refl refl, where P = signup_page and eps = 2
      and cap = 5000 and acts = acts_requeue and ?w0.0 = holding_worker
      and i = an_identity and m = 0 and e = "''a@x.com''" and ev = env_blocked
      and ?s0.0 = store_one and ev' = env_ok and ev'' = env_ok and brk = True]
  note t' = task_done_once_per_dequeue [OF k refl refl, where P = signup_page and eps = 2
      and cap = 5000 and acts = acts_requeue
      and i = an_identity and m = 0 and e = "''a@x.com''" and ev = env_ok and brk = True]
  from t' f have g: "unfinished_tasks (queue (store (sys_step signup_page 2 ?s (Work 0 env_ok))))
      = unfinished_tasks (queue (store ?s)) - 1"
    by simp
  from t p
  have "worker_run signup_page 2 [env_blocked, env_ok, env_ok] (store_one, holding_worker)
      = (store_one\<lparr>queue := (queue store_one)\<lparr>items := items (queue store_one) @ [''a@x.com'']\<rparr>\<rparr>,
         holding_worker\<lparr>pc := Acquiring 1, processed_total := Suc (processed_total holding_worker),
           history := Rotating (Suc 0) # Task_done # Requeued ''a@x.com''
             # (if unexpected env_blocked then Unexpected_error ''a@x.com''
                else Check_failed ''a@x.com'')
             # history holding_worker\<rparr>)"
    by blast
  then have e: "items (queue (fst (worker_run signup_page 2 [env_blocked, env_ok, env_ok]
        (store_one, holding_worker)))) = [''a@x.com'']
     \<and> unfinished_tasks (queue (fst (worker_run signup_page 2 [env_blocked, env_ok, env_ok]
        (store_one, holding_worker)))) = 1"
    by (simp add: store_one_def)
  from k a b c d e g show ?thesis by simp
qed

text \<open>
  C6, as stated: every failed check or unexpected exception leads to the candidate being
  put back and the identity being rotated. On a full queue the worker waits in
  \<open>q.put\<close>: here an exception has escaped the check, the queue is full, and four
  steps later the candidate is not back in the queue and the worker still has its first
  identity; by \<open>deadlock_run\<close> no later step changes that.
\<close>

theorem worker_blocked_counterexample:
  "pc (workers (run signup_page 2 (init_system 1 1) acts_full_queue_exception) ! 0)
     = Requeueing an_identity 0 ''a@x.com''
   \<and> items (queue (store (run signup_page 2 (init_system 1 1) acts_full_queue_exception)))
       = [''b@x.com'']
   \<and> count_events is_requeued
        (history (workers (run signup_page 2 (init_system 1 1) acts_full_queue_exception) ! 0)) = 0
   \<and> count_events is_new_session
        (history (workers (run signup_page 2 (init_system 1 1) acts_full_queue_exception) ! 0)) = 1"
  by code_simp

text \<open>
  C6, amended. In every interleaving no worker is left by an exception. A worker that
  has exited as exhausted has \<open>max_attempts\<close> failed attempts in a row as the last
  entries of its history, and one that has exited on the empty queue has that as its last
  entry. A step ends in the exit on the empty queue only from the inner loop, with the
  queue empty and the wait timed out, and in the exhausted exit only from a failed
  attempt that is not below \<open>max_attempts\<close>. From every state an interleaving
  reaches, a failed check, by a \<open>None\<close> result or by an exception, sends the worker to
  put the candidate back; while the queue is full the worker waits there, neither exited
  nor rotated; once the queue has room the candidate is put back, and the step after
  that sends the worker to acquire a new identity.
\<close>

theorem worker_survives_check_errors:
  assumes "k < n" and "s = run P eps (init_system n cap) acts" and "w = workers s ! k"
  shows "\<not> is_crashed (pc w)
     \<and> (pc w = Acquiring a \<longrightarrow> 1 \<le> a \<and> a \<le> max_attempts)
     \<and> (pc w = EXITED_EXHAUSTED
          \<longrightarrow> take (Suc max_attempts) (history w)
              = Init_exhausted # map Init_failed (rev [1..<Suc max_attempts]))
     \<and> (pc w = EXITED_QUEUE_EMPTY \<longrightarrow> take 1 (history w) = [Queue_empty])
     \<and> (pc w0 \<noteq> EXITED_QUEUE_EMPTY
          \<and> pc (snd (worker_step P eps ev (s0, w0))) = EXITED_QUEUE_EMPTY
        \<longrightarrow> (\<exists>i m. pc w0 = In_session i m \<and> int m < eps)
            \<and> items (queue s0) = [] \<and> timed_out ev)
     \<and> (pc w0 \<noteq> EXITED_EXHAUSTED
          \<and> pc (snd (worker_step P eps ev (s0, w0))) = EXITED_EXHAUSTED
        \<longrightarrow> (\<exists>b. pc w0 = Acquiring b \<and> \<not> b < max_attempts) \<and> acquire P ev = None)
     \<and> (pc w = Checking i m e \<and> (unexpected ev \<or> check_email e (post_outcome ev) = None)
        \<longrightarrow> pc (workers (sys_step P eps s (Work k ev)) ! k) = Requeueing i m e
            \<and> store (sys_step P eps s (Work k ev)) = store s)
     \<and> (pc w = Requeueing i m e \<and> q_full (queue (store s))
        \<longrightarrow> sys_step P eps s (Work k ev) = s)
     \<and> (pc w = Requeueing i m e \<and> \<not> q_full (queue (store s))
        \<longrightarrow> pc (workers (sys_step P eps s (Work k ev)) ! k) = Finishing i m e True
            \<and> items (queue (store (sys_step P eps s (Work k ev))))
                = items (queue (store s)) @ [e])
     \<and> (pc w = Finishing i m e True
        \<longrightarrow> pc (workers (sys_step P eps s (Work k ev)) ! k) = Acquiring 1)
     \<and> (pc w0 = Checking i m e \<and> (unexpected ev \<or> check_email e (post_outcome ev) = None)
          \<and> \<not> q_full (queue s0) \<and> 0 < unfinished_tasks (queue s0)
        \<longrightarrow> pc (snd (worker_run P eps [ev, ev', ev''] (s0, w0))) = Acquiring 1
            \<and> items (queue (fst (worker_run P eps [ev, ev', ev''] (s0, w0))))
                = items (queue s0) @ [e])"
proof -
  have "worker_inv eps (workers (run P eps (init_system n cap) acts) ! k)"
    using assms(1) by (rule reach_worker(1))
  then have inv: "worker_inv eps w" using assms by simp
  have "\<not> is_crashed (pc (workers (run P eps (init_system n cap) acts) ! k))"
    using assms(1) by (rule reach_worker(2))
  then have nc: "\<not> is_crashed (pc w)" using assms by simp
  have len: "k < length (workers s)" using assms(1,2) by (simp add: reach_length)
  have step: "\<And>ev. sys_step P eps s (Work k ev)
      = s\<lparr>store := fst (worker_step P eps ev (store s, w)),
          workers := (workers s)[k := snd (worker_step P eps ev (store s, w))]\<rparr>"
    using sys_step_work [OF len] assms(3) by simp
  have acq: "pc w = Acquiring a \<longrightarrow> 1 \<le> a \<and> a \<le> max_attempts"
    using inv by (auto simp: worker_inv_def)
  have exh: "pc w = EXITED_EXHAUSTED
      \<longrightarrow> take (Suc max_attempts) (history w)
          = Init_exhausted # map Init_failed (rev [1..<Suc max_attempts])"
    using inv by (auto simp: worker_inv_def)
  have emp: "pc w = EXITED_QUEUE_EMPTY \<longrightarrow> take 1 (history w) = [Queue_empty]"
    using inv by (auto simp: worker_inv_def)
  have only_empty: "pc w0 \<noteq> EXITED_QUEUE_EMPTY
        \<and> pc (snd (worker_step P eps ev (s0, w0))) = EXITED_QUEUE_EMPTY
      \<longrightarrow> (\<exists>i m. pc w0 = In_session i m \<and> int m < eps)
          \<and> items (queue s0) = [] \<and> timed_out ev"
    by (cases "pc w0")
       (auto simp: worker_step_def log_event_def q_get_def
          split: option.splits sum.splits if_splits list.splits)
  have only_exhausted: "pc w0 \<noteq> EXITED_EXHAUSTED
        \<and> pc (snd (worker_step P eps ev (s0, w0))) = EXITED_EXHAUSTED
      \<longrightarrow> (\<exists>b. pc w0 = Acquiring b \<and> \<not> b < max_attempts) \<and> acquire P ev = None"
    by (cases "pc w0")
       (auto simp: worker_step_def log_event_def
          split: option.splits sum.splits if_splits)
  have n1: "pc w = Checking i m e \<and> (unexpected ev \<or> check_email e (post_outcome ev) = None)
        \<longrightarrow> pc (workers (sys_step P eps s (Work k ev)) ! k) = Requeueing i m e
            \<and> store (sys_step P eps s (Work k ev)) = store s"
    using len by (auto simp: step check_fails_step log_event_def)
  have n2: "pc w = Requeueing i m e \<and> q_full (queue (store s))
        \<longrightarrow> sys_step P eps s (Work k ev) = s"
    using assms(3) by (auto simp: step requeue_blocked_step)
  have n3: "pc w = Requeueing i m e \<and> \<not> q_full (queue (store s))
        \<longrightarrow> pc (workers (sys_step P eps s (Work k ev)) ! k) = Finishing i m e True
            \<and> items (queue (store (sys_step P eps s (Work k ev))))
                = items (queue (store s)) @ [e]"
    using len by (auto simp: step requeue_room_step log_event_def)
  have n4: "pc w = Finishing i m e True
        \<longrightarrow> pc (workers (sys_step P eps s (Work k ev)) ! k) = Acquiring 1"
  proof
    assume f: "pc w = Finishing i m e True"
    then have "in_flight (pc (workers s ! k)) = 1" using assms(3) by simp
    with assms(1,2) have pos: "0 < unfinished_tasks (queue (store s))"
      by (rule reach_holding_unfinished)
    show "pc (workers (sys_step P eps s (Work k ev)) ! k) = Acquiring 1"
      using len by (simp add: step finishing_step [OF f pos] log_event_def)
  qed
  have path: "pc w0 = Checking i m e \<and> (unexpected ev \<or> check_email e (post_outcome ev) = None)
        \<and> \<not> q_full (queue s0) \<and> 0 < unfinished_tasks (queue s0)
      \<longrightarrow> pc (snd (worker_run P eps [ev, ev', ev''] (s0, w0))) = Acquiring 1
          \<and> items (queue (fst (worker_run P eps [ev, ev', ev''] (s0, w0))))
              = items (queue s0) @ [e]"
    using failure_path [of w0 i m e ev s0 P eps ev' ev''] by auto
  show ?thesis
    apply (intro conjI)
    using nc acq exh emp only_empty only_exhausted n1 n2 n3 n4 path by blast+
qed

theorem worker_survives_check_errors_witness:
  "(0::nat) < 1
   \<and> pc (workers (run signup_page 2 (init_system 1 5000) acts_queue_empty) ! 0)
       = EXITED_QUEUE_EMPTY
   \<and> take 1 (history (workers (run signup_page 2 (init_system 1 5000) acts_queue_empty) ! 0))
       = [Queue_empty]
   \<and> pc (snd (worker_run signup_page 2 [env_blocked, env_ok, env_ok]
        (store_one, holding_worker))) = Acquiring 1
   \<and> items (queue (fst (worker_run signup_page 2 [env_blocked, env_ok, env_ok]
        (store_one, holding_worker)))) = [''a@x.com'']"
proof -
  have k: "(0::nat) < 1" by simp
  have a: "pc (workers (run signup_page 2 (init_system 1 5000) acts_queue_empty) ! 0)
       = EXITED_QUEUE_EMPTY"
    by code_simp
  have p: "pc holding_worker = Checking an_identity 0 ''a@x.com''
      \<and> (unexpected env_blocked \<or> check_email ''a@x.com'' (post_outcome env_blocked) = None)
      \<and> \<not> q_full (queue store_one) \<and> 0 < unfinished_tasks (queue store_one)"
    by (simp add: holding_worker_def env_blocked_def env_ok_def check_email_def q_full_def
        store_one_def)
  from worker_survives_check_errors [OF k refl refl, where P = signup_page and eps = 2
      and cap = 5000 and acts = acts_queue_empty and ?w0.0 = holding_worker
      and ev = env_blocked and ?s0.0 = store_one and i = an_identity and m = 0
      and e = "''a@x.com''" and ev' = env_ok and ev'' = env_ok]
    a p
  show ?thesis by (simp add: store_one_def)
qed




end
